theory Spec2Isabelle
  imports Main
begin

section \<open>Strings and values of the source language\<close>

text \<open>
  A Python \<open>str\<close> is modelled as a HOL \<open>string\<close>; one \<open>char\<close> stands for one code
  point below 256. A field of a dataclass is annotated \<open>str\<close> but may hold \<open>None\<close> at
  run time (Selenium's \<open>get_attribute\<close> returns \<open>None\<close> for a missing attribute), and
  \<open>check_string_fields\<close> tests \<open>isinstance(..., str)\<close>, so a field value is a \<open>pyval\<close>.
\<close>

datatype pyval = PyStr string | PyNone

definition is_space :: "char \<Rightarrow> bool" where
  \<comment> \<open>\<open>str.isspace\<close> on code points below 256\<close>
  "is_space c = (of_char c \<in> {9, 10, 11, 12, 13, 28, 29, 30, 31, 32, 133, 160 :: nat})"

definition py_strip :: "string \<Rightarrow> string" where
  \<comment> \<open>\<open>str.strip()\<close>\<close>
  "py_strip s = rev (dropWhile is_space (rev (dropWhile is_space s)))"

section \<open>ScrapYelp.py: SearchData\<close>

record SearchData =
  name :: pyval
  url :: pyval

definition check_field :: "string \<Rightarrow> pyval \<Rightarrow> pyval" where
  \<comment> \<open>the body of the loop of \<open>check_string_fields\<close> for the field called \<open>fname\<close>\<close>
  "check_field fname v =
     (case v of
        PyStr s \<Rightarrow> (if s = [] then PyStr (''No '' @ fname) else PyStr (py_strip s))
      | PyNone \<Rightarrow> PyNone)"

definition check_string_fields :: "SearchData \<Rightarrow> SearchData" where
  "check_string_fields d =
     d\<lparr>name := check_field ''name'' (name d), url := check_field ''url'' (url d)\<rparr>"

definition mk_SearchData :: "pyval \<Rightarrow> pyval \<Rightarrow> SearchData" where
  \<comment> \<open>the constructor: \<open>__init__\<close> followed by \<open>__post_init__\<close>\<close>
  "mk_SearchData n u = check_string_fields \<lparr>name = n, url = u\<rparr>"

section \<open>ScrapYelp.py: DataPipeline\<close>

text \<open>
  The CSV file named by \<open>csv_filename\<close> is a list of rows; the empty list is a file that
  is absent or of size zero (\<open>file_exists\<close> is false for both, and mode \<open>"a"\<close> creates the
  file). \<open>open_denied\<close> makes \<open>open\<close> raise; \<open>rows_free\<close> is the number of lines the disk
  still takes before a write raises (\<open>None\<close>: no limit). \<open>append_opens\<close> counts the
  successful \<open>open(..., mode="a")\<close> calls, that is, the flushes that reached the file.
\<close>

datatype csv_row = Header "string list" | Row SearchData

datatype os_error = PermissionError | DiskFull

record disk =
  csv_rows :: "csv_row list"
  append_opens :: nat
  open_denied :: bool
  rows_free :: "nat option"

record DataPipeline =
  names_seen :: "pyval list"
  storage_queue :: "SearchData list"
  storage_queue_limit :: int
  csv_filename :: string
  csv_file_open :: bool

definition init_DataPipeline :: "string \<Rightarrow> int \<Rightarrow> DataPipeline" where
  "init_DataPipeline fn lim =
     \<lparr>names_seen = [], storage_queue = [], storage_queue_limit = lim,
      csv_filename = fn, csv_file_open = False\<rparr>"

fun write_row :: "csv_row \<Rightarrow> disk \<Rightarrow> os_error + disk" where
  "write_row r d =
     (case rows_free d of
        None \<Rightarrow> Inr (d\<lparr>csv_rows := csv_rows d @ [r]\<rparr>)
      | Some 0 \<Rightarrow> Inl DiskFull
      | Some (Suc k) \<Rightarrow> Inr (d\<lparr>csv_rows := csv_rows d @ [r], rows_free := Some k\<rparr>))"

fun write_rows :: "csv_row list \<Rightarrow> disk \<Rightarrow> (os_error option \<times> disk)" where
  "write_rows [] d = (None, d)"
| "write_rows (r # rs) d =
     (case write_row r d of
        Inl e \<Rightarrow> (Some e, d)
      | Inr d' \<Rightarrow> write_rows rs d')"

definition save_to_csv :: "DataPipeline \<Rightarrow> disk \<Rightarrow> (os_error option \<times> DataPipeline \<times> disk)" where
  \<comment> \<open>the first component is the exception that leaves the call, if any\<close>
  "save_to_csv p d =
     (let p1 = p\<lparr>csv_file_open := True\<rparr>;
          data_to_save = storage_queue p1;
          p2 = p1\<lparr>storage_queue := []\<rparr>
      in if data_to_save = [] then (None, p2, d)
         else
           let file_exists = (csv_rows d \<noteq> [])
           in if open_denied d then (Some PermissionError, p2, d)
              else
                let d1 = d\<lparr>append_opens := Suc (append_opens d)\<rparr>;
                    out = (if file_exists then [] else [Header [''name'', ''url'']])
                            @ map Row data_to_save
                in (case write_rows out d1 of
                      (Some e, d2) \<Rightarrow> (Some e, p2, d2)
                    | (None, d2) \<Rightarrow> (None, p2\<lparr>csv_file_open := False\<rparr>, d2)))"

definition is_duplicate :: "DataPipeline \<Rightarrow> SearchData \<Rightarrow> (bool \<times> DataPipeline)" where
  "is_duplicate p input_data =
     (if name input_data \<in> set (names_seen p) then (True, p)
      else (False, p\<lparr>names_seen := names_seen p @ [name input_data]\<rparr>))"

definition add_data :: "DataPipeline \<Rightarrow> disk \<Rightarrow> SearchData \<Rightarrow> (os_error option \<times> DataPipeline \<times> disk)" where
  "add_data p d scraped_data =
     (case is_duplicate p scraped_data of
        (True, p1) \<Rightarrow> (None, p1, d)
      | (False, p1) \<Rightarrow>
          let p2 = p1\<lparr>storage_queue := storage_queue p1 @ [scraped_data]\<rparr>
          in if int (length (storage_queue p2)) \<ge> storage_queue_limit p2 \<and> csv_file_open p2 = False
             then save_to_csv p2 d
             else (None, p2, d))"

definition close_pipeline :: "DataPipeline \<Rightarrow> disk \<Rightarrow> (os_error option \<times> DataPipeline \<times> disk)" where
  \<comment> \<open>\<open>time.sleep(3)\<close> changes no state\<close>
  "close_pipeline p d =
     (if length (storage_queue p) > 0 then save_to_csv p d else (None, p, d))"

fun add_all :: "DataPipeline \<Rightarrow> disk \<Rightarrow> SearchData list \<Rightarrow> (os_error option \<times> DataPipeline \<times> disk)" where
  \<comment> \<open>a sequence of \<open>add_data\<close> calls from one thread; an exception ends it\<close>
  "add_all p d [] = (None, p, d)"
| "add_all p d (x # xs) =
     (case add_data p d x of
        (Some e, p', d') \<Rightarrow> (Some e, p', d')
      | (None, p', d') \<Rightarrow> add_all p' d' xs)"

definition data_rows :: "csv_row list \<Rightarrow> SearchData list" where
  \<comment> \<open>the records of a file, the header left out\<close>
  "data_rows rs = concat (map (\<lambda>r. case r of Header _ \<Rightarrow> [] | Row x \<Rightarrow> [x]) rs)"

definition good_disk :: "csv_row list \<Rightarrow> disk" where
  \<comment> \<open>a disk on which no open and no write fails, holding the file \<open>c\<close>\<close>
  "good_disk c = \<lparr>csv_rows = c, append_opens = 0, open_denied = False, rows_free = None\<rparr>"

fun first_seen :: "pyval list \<Rightarrow> SearchData list \<Rightarrow> SearchData list" where
  \<comment> \<open>the spec's words: first-seen wins, later duplicates are dropped\<close>
  "first_seen seen [] = []"
| "first_seen seen (x # xs) =
     (if name x \<in> set seen then first_seen seen xs
      else x # first_seen (seen @ [name x]) xs)"

definition healthy :: "DataPipeline \<Rightarrow> disk \<Rightarrow> bool" where
  \<comment> \<open>no I/O fault is pending and no flush is marked as in progress\<close>
  "healthy p d = (open_denied d = False \<and> rows_free d = None \<and> csv_file_open p = False)"

section \<open>WebsiteContactFinder.py\<close>

subsection \<open>Strings\<close>

definition is_upper :: "char \<Rightarrow> bool" where
  "is_upper c = (65 \<le> (of_char c :: nat) \<and> (of_char c :: nat) \<le> 90)"

definition is_lower :: "char \<Rightarrow> bool" where
  "is_lower c = (97 \<le> (of_char c :: nat) \<and> (of_char c :: nat) \<le> 122)"

definition is_digit :: "char \<Rightarrow> bool" where
  "is_digit c = (48 \<le> (of_char c :: nat) \<and> (of_char c :: nat) \<le> 57)"

definition is_alpha :: "char \<Rightarrow> bool" where
  \<comment> \<open>the class \<open>[a-zA-Z]\<close>\<close>
  "is_alpha c = (is_lower c \<or> is_upper c)"

definition lower_char :: "char \<Rightarrow> char" where
  \<comment> \<open>\<open>str.lower\<close> on one code point below 256: A-Z, and the Latin-1 capitals except the
     multiplication sign\<close>
  "lower_char c =
     (let n = (of_char c :: nat)
      in if is_upper c \<or> (192 \<le> n \<and> n \<le> 222 \<and> n \<noteq> 215) then char_of (n + 32) else c)"

definition py_lower :: "string \<Rightarrow> string" where
  "py_lower s = map lower_char s"

definition startswith :: "string \<Rightarrow> string \<Rightarrow> bool" where
  \<comment> \<open>\<open>s.startswith(p)\<close>\<close>
  "startswith p s = (take (length p) s = p)"

subsection \<open>Regular expressions\<close>

text \<open>
  Python's \<open>re\<close> is a backtracking matcher. A pattern is a term of type \<open>rx\<close>, and
  \<open>ms r s\<close> lists the rests of \<open>s\<close> that \<open>r\<close> can leave after matching a prefix of \<open>s\<close>, in
  the order in which the matcher tries them: the left alternative before the right one,
  and one more turn of a greedy repetition (\<open>*\<close>, \<open>+\<close>, \<open>?\<close>, \<open>{0,n}\<close>) before stopping.
  \<open>NotAhead\<close> is the negative lookahead \<open>(?!...)\<close>. A turn of \<open>*\<close> that reads nothing is not
  repeated (every loop of the two patterns of the source reads a character), so the
  length of the string bounds the number of turns. \<open>rx_match\<close> is \<open>pattern.match(s)\<close>
  (the first way to match at the start; \<open>group(0)\<close> is returned), \<open>rx_fullmatch\<close> is the
  truth of \<open>pattern.fullmatch(s)\<close> (some way to match reads all of \<open>s\<close>), and \<open>rx_search\<close>
  is \<open>pattern.search(s)\<close> (the first match at the leftmost start that has one).
\<close>

datatype rx =
    Cls "char \<Rightarrow> bool"
  | Eps
  | Seq rx rx
  | Alt rx rx
  | Star rx
  | Opt rx
  | UpTo nat rx
  | NotAhead rx

fun star_iter :: "(string \<Rightarrow> string list) \<Rightarrow> nat \<Rightarrow> string \<Rightarrow> string list" where
  "star_iter f 0 s = [s]"
| "star_iter f (Suc n) s =
     concat (map (\<lambda>s'. if length s' < length s then star_iter f n s' else []) (f s)) @ [s]"

fun upto_iter :: "(string \<Rightarrow> string list) \<Rightarrow> nat \<Rightarrow> string \<Rightarrow> string list" where
  "upto_iter f 0 s = [s]"
| "upto_iter f (Suc n) s = concat (map (upto_iter f n) (f s)) @ [s]"

primrec ms :: "rx \<Rightarrow> string \<Rightarrow> string list" where
  "ms (Cls p) s = (case s of [] \<Rightarrow> [] | c # cs \<Rightarrow> if p c then [cs] else [])"
| "ms Eps s = [s]"
| "ms (Seq a b) s = concat (map (ms b) (ms a s))"
| "ms (Alt a b) s = ms a s @ ms b s"
| "ms (Star a) s = star_iter (ms a) (length s) s"
| "ms (Opt a) s = ms a s @ [s]"
| "ms (UpTo n a) s = upto_iter (ms a) n s"
| "ms (NotAhead a) s = (if ms a s = [] then [s] else [])"

definition rx_match :: "rx \<Rightarrow> string \<Rightarrow> string option" where
  "rx_match r s = (case ms r s of [] \<Rightarrow> None | s' # _ \<Rightarrow> Some (take (length s - length s') s))"

definition rx_fullmatch :: "rx \<Rightarrow> string \<Rightarrow> bool" where
  "rx_fullmatch r s = ([] \<in> set (ms r s))"

fun rx_search :: "rx \<Rightarrow> string \<Rightarrow> string option" where
  "rx_search r [] = rx_match r []"
| "rx_search r (c # cs) =
     (case rx_match r (c # cs) of Some m \<Rightarrow> Some m | None \<Rightarrow> rx_search r cs)"

definition Chr :: "char \<Rightarrow> rx" where
  "Chr c = Cls (\<lambda>x. x = c)"

definition Plus :: "rx \<Rightarrow> rx" where
  "Plus r = Seq r (Star r)"

definition Lit :: "string \<Rightarrow> rx" where
  "Lit w = foldr (\<lambda>c r. Seq (Chr c) r) w Eps"

fun alts :: "rx list \<Rightarrow> rx" where
  "alts [] = Cls (\<lambda>_. False)"
| "alts [r] = r"
| "alts (r # rs) = Alt r (alts rs)"

definition email_local :: "char \<Rightarrow> bool" where
  \<comment> \<open>\<open>[a-zA-Z0-9._%+-]\<close>\<close>
  "email_local c = (is_alpha c \<or> is_digit c \<or> c \<in> set ''._%+-'')"

definition email_domain :: "char \<Rightarrow> bool" where
  \<comment> \<open>\<open>[a-zA-Z0-9.-]\<close>\<close>
  "email_domain c = (is_alpha c \<or> is_digit c \<or> c \<in> set ''.-'')"

definition EMAIL_REGEX :: rx where
  \<comment> \<open>\<open>[a-zA-Z0-9._%+-]+@[a-zA-Z0-9.-]+\.[a-zA-Z]{2,}\<close>\<close>
  "EMAIL_REGEX =
     Seq (Plus (Cls email_local))
      (Seq (Chr CHR ''@'')
        (Seq (Plus (Cls email_domain))
          (Seq (Chr CHR ''.'')
            (Seq (Cls is_alpha) (Seq (Cls is_alpha) (Star (Cls is_alpha)))))))"

definition extraer_primer_email_valido_de_texto :: "string \<Rightarrow> string option" where
  \<comment> \<open>\<open>_extraer_primer_email_valido_de_texto\<close> of the source\<close>
  "extraer_primer_email_valido_de_texto texto =
     (case rx_search EMAIL_REGEX texto of
        Some m \<Rightarrow> (let email = py_lower m in if rx_fullmatch EMAIL_REGEX email then Some email else None)
      | None \<Rightarrow> None)"

definition email_shape :: "string \<Rightarrow> bool" where
  \<comment> \<open>the spec's words: \<open>local-part@domain.tld\<close>\<close>
  "email_shape v =
     (\<exists>l d t. v = l @ ''@'' @ d @ ''.'' @ t
        \<and> l \<noteq> [] \<and> list_all email_local l
        \<and> d \<noteq> [] \<and> list_all email_domain d
        \<and> 2 \<le> length t \<and> list_all is_alpha t)"

definition recognises :: "rx \<Rightarrow> string set \<Rightarrow> bool" where
  \<comment> \<open>the matcher started on \<open>s\<close> can stop at \<open>s'\<close> exactly when it has read a word of \<open>L\<close>\<close>
  "recognises r L = (\<forall>s s'. (s' \<in> set (ms r s)) = (\<exists>v. v \<in> L \<and> s = v @ s'))"

subsection \<open>Libraries and the network\<close>

text \<open>
  What the stage takes from libraries is a parameter of the model: BeautifulSoup's
  \<open>find_all('a', href=True)\<close> (the \<open>href\<close> values in document order), \<open>urljoin\<close>, the
  \<open>scheme\<close> and \<open>path\<close> of \<open>urlparse\<close>, and the order in which a \<open>set\<close> of strings
  is iterated. \<open>urlparse\<close> raises \<open>ValueError\<close> on some strings (a host with a bracket
  that is not closed, as in \<open>http://[\<close>), and \<open>urljoin\<close> with such a base and a relative
  path raises as well: \<open>url_rejected\<close> tells which strings these are, and
  \<open>urlparse_scheme\<close>, \<open>urlparse_path\<close> and \<open>urljoin\<close> are the values where the
  functions return. A Python \<open>set\<close> is kept as the list of its elements in insertion
  order, without repetition; \<open>list(s)\<close> is \<open>set_iter\<close> of that list, which Python leaves
  open (it follows the hashes of the strings, which change from one process to the next).
\<close>

datatype py_exception =
    FileNotFoundError | JSONDecodeError | OtherLoadError
  | TypeError | AttributeError | ValueError

record lib =
  soup_hrefs :: "string \<Rightarrow> string list"
  urljoin :: "string \<Rightarrow> string \<Rightarrow> string"
  urlparse_scheme :: "string \<Rightarrow> string"
  urlparse_path :: "string \<Rightarrow> string"
  url_rejected :: "string \<Rightarrow> bool"
  set_iter :: "string list \<Rightarrow> string list"

definition set_add :: "string \<Rightarrow> string list \<Rightarrow> string list" where
  \<comment> \<open>\<open>s.add(x)\<close>\<close>
  "set_add x xs = (if x \<in> set xs then xs else xs @ [x])"

definition set_update :: "string list \<Rightarrow> string list \<Rightarrow> string list" where
  \<comment> \<open>\<open>s.update(ys)\<close>\<close>
  "set_update ys xs = fold set_add ys xs"

definition iterates_sets :: "lib \<Rightarrow> bool" where
  \<comment> \<open>all that Python promises of \<open>list(s)\<close>: each element of the set once\<close>
  "iterates_sets L = (\<forall>xs. distinct xs \<longrightarrow> distinct (set_iter L xs) \<and> set (set_iter L xs) = set xs)"

text \<open>
  The network: \<open>session_get\<close> is \<open>session.get\<close> followed by \<open>raise_for_status\<close>
  (\<open>None\<close>: a \<open>RequestException\<close>); \<open>driver_get\<close> is \<open>driver.get\<close>, the wait for
  \<open>document.readyState\<close> and \<open>page_source\<close> (\<open>None\<close>: any exception of the three).
\<close>

record response =
  content :: string
  text_of :: string

record web =
  session_get :: "string \<Rightarrow> response option"
  driver_get :: "string \<Rightarrow> string option"

definition truthy :: "string option \<Rightarrow> bool" where
  \<comment> \<open>the truth value of a \<open>str\<close> or \<open>None\<close>\<close>
  "truthy v = (case v of None \<Rightarrow> False | Some s \<Rightarrow> s \<noteq> [])"

subsection \<open>WebsiteContactFinder.py: the extractors\<close>

definition COMMON_CONTACT_PATHS :: "string list" where
  "COMMON_CONTACT_PATHS =
     [[], ''contact'', ''contacto'', ''contact-us'', ''contactus'', ''about'',
      ''about-us'', ''nosotros'', ''impressum'', ''legal'', ''aviso-legal'', ''contactenos'']"

definition is_word :: "char \<Rightarrow> bool" where
  \<comment> \<open>\<open>\w\<close> of a \<open>str\<close> pattern, on code points below 256\<close>
  "is_word c =
     (let n = (of_char c :: nat)
      in is_alpha c \<or> is_digit c \<or> c = CHR ''_''
         \<or> n \<in> {170, 178, 179, 181, 185, 186, 188, 189, 190}
         \<or> (192 \<le> n \<and> n \<noteq> 215 \<and> n \<noteq> 247))"

definition fb_segment :: "char \<Rightarrow> bool" where
  \<comment> \<open>\<open>[\w.-]\<close>\<close>
  "fb_segment c = (is_word c \<or> c \<in> set ''.-'')"

definition FB_DENY_WORDS :: "string list" where
  \<comment> \<open>the alternatives of the negative lookahead that are plain words, in the order of
     the source; \<open>pages(?:/\w{0,15})?/badge\<close> stands between \<open>share.php\<close> and \<open>video.php\<close>\<close>
  "FB_DENY_WORDS =
     [''sharer'', ''plugins'', ''dialog'', ''login.php'', ''share.php'',
      ''video.php'', ''watch'', ''events'', ''groups'', ''search'', ''help'', ''legal'', ''terms'',
      ''privacy'', ''policies'', ''maps'', ''notes'', ''photo.php'', ''photos'', ''media'',
      ''marketplace'', ''jobs'', ''games'', ''fundraisers'', ''developers'', ''careers'',
      ''business'', ''stories'', ''live'', ''messages'', ''notifications'', ''bookmarks'', ''ads'',
      ''gaming'', ''page_insights'', ''insights'', ''activity_log'', ''settings'',
      ''recommendations'', ''reviews'', ''offers'', ''services'', ''shop'', ''community'', ''menu'',
      ''events'', ''videos'', ''posts'', ''questions'', ''groups'', ''albums'', ''applications'']"

definition FB_BADGE :: rx where
  \<comment> \<open>\<open>pages(?:/\w{0,15})?/badge\<close>\<close>
  "FB_BADGE = Seq (Lit ''pages'') (Seq (Opt (Seq (Chr CHR ''/'') (UpTo 15 (Cls is_word)))) (Lit ''/badge''))"

definition FB_DENY :: rx where
  \<comment> \<open>the alternation inside the lookahead\<close>
  "FB_DENY = alts (map Lit (take 5 FB_DENY_WORDS) @ [FB_BADGE] @ map Lit (drop 5 FB_DENY_WORDS))"

definition FACEBOOK_PROFILE_REGEX :: rx where
  \<comment> \<open>\<open>https?://(?:www\.)?facebook\.com/(?!...)([\w.-]+(?:/[\w.-]+)*)/?\<close>\<close>
  "FACEBOOK_PROFILE_REGEX =
     Seq (Lit ''http'') (Seq (Opt (Chr CHR ''s'')) (Seq (Lit ''://'')
      (Seq (Opt (Lit ''www.'')) (Seq (Lit ''facebook.com/'')
        (Seq (NotAhead FB_DENY)
          (Seq (Seq (Plus (Cls fb_segment)) (Star (Seq (Chr CHR ''/'') (Plus (Cls fb_segment)))))
               (Opt (Chr CHR ''/''))))))))"

definition strip_slashes :: "string \<Rightarrow> string" where
  \<comment> \<open>\<open>s.strip('/')\<close>\<close>
  "strip_slashes s =
     rev (dropWhile (\<lambda>c. c = CHR ''/'') (rev (dropWhile (\<lambda>c. c = CHR ''/'') s)))"

definition fb_keep :: "lib \<Rightarrow> string \<Rightarrow> bool" where
  \<comment> \<open>the two tests of the loop body of \<open>buscar_facebook_links_en_html\<close> on \<open>url_absoluta\<close>\<close>
  "fb_keep L url_absoluta =
     (case rx_match FACEBOOK_PROFILE_REGEX url_absoluta of
        None \<Rightarrow> False
      | Some _ \<Rightarrow>
          (let path = strip_slashes (urlparse_path L url_absoluta)
           in path \<noteq> [] \<and> path \<notin> set [''facebook'', ''pg'', ''profile.php'']))"

definition buscar_facebook_links_en_html :: "lib \<Rightarrow> string \<Rightarrow> string \<Rightarrow> string list" where
  "buscar_facebook_links_en_html L html_content base_url =
     set_iter L
       (fold (\<lambda>href links_encontrados.
                let url_absoluta = urljoin L base_url href
                in if fb_keep L url_absoluta then set_add url_absoluta links_encontrados
                   else links_encontrados)
             (soup_hrefs L html_content) [])"

fun mailto_scan :: "string list \<Rightarrow> string option" where
  \<comment> \<open>the loop over the anchors of \<open>buscar_primer_email_con_requests\<close>; \<open>split('mailto:', 1)[1]\<close>
     of a string that starts with \<open>mailto:\<close> is the string without these seven characters\<close>
  "mailto_scan [] = None"
| "mailto_scan (href # hrefs) =
     (let href_lower = py_lower href
      in if startswith ''mailto:'' href_lower
         then (let email = py_strip (takeWhile (\<lambda>c. c \<noteq> CHR ''?'') (drop 7 href_lower))
               in if rx_fullmatch EMAIL_REGEX email then Some email else mailto_scan hrefs)
         else mailto_scan hrefs)"

definition buscar_primer_email_con_requests :: "lib \<Rightarrow> web \<Rightarrow> string \<Rightarrow> string option" where
  "buscar_primer_email_con_requests L W u =
     (case session_get W u of
        None \<Rightarrow> None
      | Some respuesta \<Rightarrow>
          (case mailto_scan (soup_hrefs L (content respuesta)) of
             Some email \<Rightarrow> Some email
           | None \<Rightarrow>
               (let email_en_texto = extraer_primer_email_valido_de_texto (text_of respuesta)
                in if truthy email_en_texto then email_en_texto else None)))"

subsection \<open>WebsiteContactFinder.py: the deep search\<close>

record deep_state =
  email_final :: "string option"
  facebook_links_final :: "string list"
  visited :: "string list"

fun visit_urls :: "lib \<Rightarrow> web \<Rightarrow> string list \<Rightarrow> deep_state \<Rightarrow> deep_state" where
  \<comment> \<open>the \<open>for\<close> loop of \<open>buscar_datos_contacto_con_selenium\<close>; \<open>visited\<close> records the calls
     of \<open>driver.get\<close>\<close>
  "visit_urls L W [] st = st"
| "visit_urls L W (u # us) st =
     (if truthy (email_final st) then st
      else
        let st1 = st\<lparr>visited := visited st @ [u]\<rparr>
        in (case driver_get W u of
              None \<Rightarrow> visit_urls L W us st1
            | Some page_source \<Rightarrow>
                (let email_encontrado = extraer_primer_email_valido_de_texto page_source
                 in if truthy email_encontrado
                    then visit_urls L W us (st1\<lparr>email_final := email_encontrado\<rparr>)
                    else
                      let links_fb = buscar_facebook_links_en_html L page_source u
                      in if links_fb \<noteq> []
                         then visit_urls L W us
                                (st1\<lparr>facebook_links_final := set_update links_fb (facebook_links_final st1)\<rparr>)
                         else visit_urls L W us st1)))"

definition with_scheme :: "lib \<Rightarrow> string \<Rightarrow> string" where
  \<comment> \<open>\<open>if not urlparse(base_url).scheme: base_url = "http://" + base_url\<close>\<close>
  "with_scheme L base_url =
     (if urlparse_scheme L base_url = [] then ''http://'' @ base_url else base_url)"

definition urls_a_visitar :: "lib \<Rightarrow> string \<Rightarrow> py_exception + string list" where
  \<comment> \<open>the set of candidate URLs, in insertion order. \<open>urlparse(base_url)\<close> and the
     \<open>urljoin\<close> calls stand outside every \<open>try\<close>: a \<open>ValueError\<close> of theirs leaves
     \<open>buscar_datos_contacto_con_selenium\<close> before any page is visited\<close>
  "urls_a_visitar L base_url =
     (if url_rejected L base_url then Inl ValueError
      else if url_rejected L (with_scheme L base_url) then Inl ValueError
      else Inr (fold (\<lambda>path s. set_add (urljoin L (with_scheme L base_url) path) s)
                  COMMON_CONTACT_PATHS []))"

definition deep_search :: "lib \<Rightarrow> web \<Rightarrow> string \<Rightarrow> py_exception + deep_state" where
  \<comment> \<open>the state of \<open>buscar_datos_contacto_con_selenium\<close> when its loop ends, or the
     exception that leaves it\<close>
  "deep_search L W base_url =
     (case urls_a_visitar L base_url of
        Inl e \<Rightarrow> Inl e
      | Inr urls \<Rightarrow>
          Inr (visit_urls L W (set_iter L urls)
                 \<lparr>email_final = None, facebook_links_final = [], visited = []\<rparr>))"

definition deep_visited :: "lib \<Rightarrow> web \<Rightarrow> string \<Rightarrow> py_exception + string list" where
  \<comment> \<open>the URLs passed to \<open>driver.get\<close>, in the order of the calls\<close>
  "deep_visited L W base_url =
     (case deep_search L W base_url of Inl e \<Rightarrow> Inl e | Inr st \<Rightarrow> Inr (visited st))"

definition buscar_datos_contacto_con_selenium ::
    "lib \<Rightarrow> web \<Rightarrow> string \<Rightarrow> py_exception + (string option \<times> string list)" where
  \<comment> \<open>the returned dictionary: \<open>email\<close> and \<open>facebook_links\<close>\<close>
  "buscar_datos_contacto_con_selenium L W base_url =
     (case deep_search L W base_url of
        Inl e \<Rightarrow> Inl e
      | Inr st \<Rightarrow> Inr (email_final st, set_iter L (facebook_links_final st)))"

subsection \<open>WebsiteContactFinder.py: the stage\<close>

text \<open>
  What \<open>json.load\<close> returns: \<open>None\<close>, a truth value, a number (kept as an integer: the
  stage never looks at one), a string, a list, or a dictionary given by its items.
\<close>

datatype json = JNull | JBool bool | JNum int | JStr string | JArr "json list" | JObj "(string \<times> json) list"

type_synonym business = "string \<rightharpoonup> json"

definition is_valid_website :: "json option \<Rightarrow> bool" where
  \<comment> \<open>the argument is \<open>business.get("website")\<close>; only a non-empty \<open>str\<close> passes the first test\<close>
  "is_valid_website u =
     (case u of
        Some (JStr s) \<Rightarrow>
          if s = [] then False
          else
            let url_lower = py_strip (py_lower s)
            in if url_lower \<in> set [''no encontrado'', ''no encontrado (href vac'' @ [char_of (237 :: nat)] @ ''o)'']
               then False
               else if \<not> (startswith ''http://'' url_lower \<or> startswith ''https://'' url_lower)
               then False
               else True
      | _ \<Rightarrow> False)"

definition json_of_email :: "string option \<Rightarrow> json" where
  "json_of_email e = (case e of None \<Rightarrow> JNull | Some s \<Rightarrow> JStr s)"

definition resolve ::
    "lib \<Rightarrow> web \<Rightarrow> bool \<Rightarrow> json option \<Rightarrow> py_exception + (string option \<times> string list \<times> string)" where
  \<comment> \<open>\<open>final_email\<close>, \<open>final_fb_links\<close> and \<open>method_used\<close> of one turn of the loop of
     \<open>procesar_negocios\<close>; \<open>driver\<close> tells whether a Selenium driver is there. The call of
     \<open>buscar_datos_contacto_con_selenium\<close> has no handler around it\<close>
  "resolve L W driver website_url =
     (if is_valid_website website_url
      then
        (case website_url of
           Some (JStr u) \<Rightarrow>
             (let final_email = buscar_primer_email_con_requests L W u
              in if truthy final_email then Inr (final_email, [], ''Requests (Email)'')
                 else if driver
                 then
                   (case buscar_datos_contacto_con_selenium L W u of
                      Inl e \<Rightarrow> Inl e
                    | Inr (email, facebook_links) \<Rightarrow>
                        if truthy email then Inr (email, [], ''Selenium (Email)'')
                        else if facebook_links \<noteq> []
                        then Inr (final_email, facebook_links, ''Selenium (FB Links)'')
                        else Inr (final_email, [], ''Ninguno''))
                 else Inr (final_email, [], ''Ninguno''))
         | _ \<Rightarrow> Inr (None, [], ''Ninguno''))
      else Inr (None, [], ''Ninguno''))"

definition with_fields :: "business \<Rightarrow> string option \<Rightarrow> string list \<Rightarrow> string \<Rightarrow> business" where
  \<comment> \<open>\<open>business.copy()\<close> followed by the three assignments\<close>
  "with_fields b final_email final_fb_links method_used =
     b(''email_encontrado'' \<mapsto> json_of_email final_email,
       ''facebook_links_encontrados'' \<mapsto> JArr (map JStr final_fb_links),
       ''metodo_extraccion'' \<mapsto> JStr method_used)"

definition result_entry :: "lib \<Rightarrow> web \<Rightarrow> bool \<Rightarrow> business \<Rightarrow> py_exception + business" where
  "result_entry L W driver b =
     (case resolve L W driver (b ''website'') of
        Inl e \<Rightarrow> Inl e
      | Inr (final_email, final_fb_links, method_used) \<Rightarrow>
          Inr (with_fields b final_email final_fb_links method_used))"

text \<open>
  \<open>json.load\<close> gives any JSON value, not only a list of objects. \<open>py_iter\<close> is what
  \<open>len(businesses)\<close> and the \<open>for\<close> loop make of it: a list gives its elements, a
  dictionary its keys, a string its characters, and \<open>len\<close> of anything else raises
  \<open>TypeError\<close>. In the loop, \<open>business.get\<close> exists for a dictionary only; on any other
  element it raises \<open>AttributeError\<close>. A dictionary is the list of its items, with
  distinct keys. Neither exception has a handler.
\<close>

fun py_iter :: "json \<Rightarrow> py_exception + json list" where
  "py_iter (JArr xs) = Inr xs"
| "py_iter (JObj items) = Inr (map (\<lambda>kv. JStr (fst kv)) items)"
| "py_iter (JStr s) = Inr (map (\<lambda>c. JStr [c]) s)"
| "py_iter JNull = Inl TypeError"
| "py_iter (JBool b) = Inl TypeError"
| "py_iter (JNum n) = Inl TypeError"

fun one_business :: "lib \<Rightarrow> web \<Rightarrow> bool \<Rightarrow> json \<Rightarrow> py_exception + business" where
  "one_business L W driver (JObj items) = result_entry L W driver (map_of items)"
| "one_business L W driver JNull = Inl AttributeError"
| "one_business L W driver (JBool b) = Inl AttributeError"
| "one_business L W driver (JNum n) = Inl AttributeError"
| "one_business L W driver (JStr s) = Inl AttributeError"
| "one_business L W driver (JArr xs) = Inl AttributeError"

fun loop_negocios :: "lib \<Rightarrow> web \<Rightarrow> bool \<Rightarrow> json list \<Rightarrow> py_exception + business list" where
  \<comment> \<open>the \<open>for\<close> loop of \<open>procesar_negocios\<close>: the first exception ends it, and with it
     the function\<close>
  "loop_negocios L W driver [] = Inr []"
| "loop_negocios L W driver (business # rest) =
     (case one_business L W driver business of
        Inl e \<Rightarrow> Inl e
      | Inr entry \<Rightarrow>
          (case loop_negocios L W driver rest of
             Inl e \<Rightarrow> Inl e
           | Inr final_results \<Rightarrow> Inr (entry # final_results)))"

datatype loaded = LoadFails py_exception | Loaded json

datatype event =
    CriticalLoadError string py_exception
  | Saved string nat
  | CriticalSaveError string
  | NothingToSave

text \<open>
  The machine the stage runs on: what opening and decoding the input file gives
  (\<open>OtherLoadError\<close> is any exception that \<open>procesar_negocios\<close> does not catch, such as a
  \<open>UnicodeDecodeError\<close> or a permission error), whether a Selenium driver could be set
  up, and whether writing the output file raises. Of the printed lines only those of
  \<open>event\<close> are kept.
\<close>

record host =
  read_json :: "string \<Rightarrow> loaded"
  driver_available :: bool
  dump_raises :: "string \<Rightarrow> bool"

definition procesar_negocios ::
    "lib \<Rightarrow> web \<Rightarrow> host \<Rightarrow> string \<Rightarrow> bool \<Rightarrow> py_exception + (event list \<times> business list)" where
  \<comment> \<open>\<open>Inl\<close>: an exception that leaves the function\<close>
  "procesar_negocios L W H input_json_path driver =
     (case read_json H input_json_path of
        LoadFails e \<Rightarrow>
          if e = FileNotFoundError \<or> e = JSONDecodeError
          then Inr ([CriticalLoadError input_json_path e], [])
          else Inl e
      | Loaded businesses \<Rightarrow>
          (case py_iter businesses of
             Inl e \<Rightarrow> Inl e
           | Inr elements \<Rightarrow>
               (case loop_negocios L W driver elements of
                  Inl e \<Rightarrow> Inl e
                | Inr final_results \<Rightarrow> Inr ([], final_results))))"

record run =
  stdout :: "event list"
  written :: "business list option"
  exit_status :: nat

definition main :: "lib \<Rightarrow> web \<Rightarrow> host \<Rightarrow> string \<Rightarrow> string \<Rightarrow> run" where
  \<comment> \<open>the script run as \<open>__main__\<close>: the interpreter exits with 1 on an exception that
     nothing catches and with 0 when \<open>main\<close> returns\<close>
  "main L W H input_file output_file =
     (case procesar_negocios L W H input_file (driver_available H) of
        Inl e \<Rightarrow> \<lparr>stdout = [], written = None, exit_status = 1\<rparr>
      | Inr (events, full_results) \<Rightarrow>
          if full_results \<noteq> []
          then
            (if dump_raises H output_file
             then \<lparr>stdout = events @ [CriticalSaveError output_file], written = None, exit_status = 0\<rparr>
             else \<lparr>stdout = events @ [Saved output_file (length full_results)],
                   written = Some full_results, exit_status = 0\<rparr>)
          else \<lparr>stdout = events @ [NothingToSave], written = None, exit_status = 0\<rparr>)"

subsection \<open>Words of the spec\<close>

definition mailto_target :: "string \<Rightarrow> string" where
  \<comment> \<open>prefix stripped, query component removed, trimmed, lowercased\<close>
  "mailto_target href = py_strip (takeWhile (\<lambda>c. c \<noteq> CHR ''?'') (drop 7 (py_lower href)))"

definition valid_mailto :: "string \<Rightarrow> bool" where
  \<comment> \<open>an anchor target that begins with \<open>mailto:\<close> (in any case) and holds a valid address\<close>
  "valid_mailto href = (startswith ''mailto:'' (py_lower href) \<and> email_shape (mailto_target href))"

definition page_email :: "web \<Rightarrow> string \<Rightarrow> string option" where
  \<comment> \<open>what the email extractor finds on the rendered page of a URL\<close>
  "page_email W u =
     (case driver_get W u of None \<Rightarrow> None | Some src \<Rightarrow> extraer_primer_email_valido_de_texto src)"

definition FB_PREFIXES :: "string list" where
  "FB_PREFIXES =
     [''http://facebook.com/'', ''http://www.facebook.com/'',
      ''https://facebook.com/'', ''https://www.facebook.com/'']"



subsection \<open>A sample environment\<close>

text \<open>
  Stand-ins for the libraries on the inputs of the examples below: \<open>urljoin\<close> for a base
  \<open>scheme://host\<close> without a path and a reference that is absolute or one relative
  segment, \<open>urlparse\<close> for URLs \<open>scheme://host/path\<close> without query or fragment (it
  rejects a URL with one square bracket and not the other), and an HTML parser that knows
  the pages of the examples.
\<close>

definition sample_urljoin :: "string \<Rightarrow> string \<Rightarrow> string" where
  "sample_urljoin base ref =
     (if startswith ''http://'' ref \<or> startswith ''https://'' ref \<or> startswith ''mailto:'' ref then ref
      else if ref = [] then base
      else base @ ''/'' @ ref)"

definition sample_scheme :: "string \<Rightarrow> string" where
  "sample_scheme u =
     (if startswith ''http://'' u then ''http'' else if startswith ''https://'' u then ''https'' else [])"

definition sample_path :: "string \<Rightarrow> string" where
  "sample_path u =
     dropWhile (\<lambda>c. c \<noteq> CHR ''/'') (drop (length (sample_scheme u) + 3) u)"

definition sample_hrefs :: "string \<Rightarrow> string list" where
  "sample_hrefs html =
     (if html = ''sales@acme.example <a href=\"mailto:Info@Acme.example?subject=Hi\">Mail</a>''
      then [''mailto:Info@Acme.example?subject=Hi'']
      else if html = ''<a href=\"https://www.facebook.com/sharer/sharer.php\">s</a><a href=\"https://www.facebook.com/acme\">f</a><a href=\"https://www.facebook.com/acme\">g</a>''
      then [''https://www.facebook.com/sharer/sharer.php'', ''https://www.facebook.com/acme'',
            ''https://www.facebook.com/acme'']
      else [])"

definition sample_rejected :: "string \<Rightarrow> bool" where
  \<comment> \<open>one bracket without the other: \<open>Invalid IPv6 URL\<close>\<close>
  "sample_rejected u = ((CHR ''['' \<in> set u) \<noteq> (CHR '']'' \<in> set u))"

definition sample_lib :: "(string list \<Rightarrow> string list) \<Rightarrow> lib" where
  \<comment> \<open>the argument is the order in which sets are iterated\<close>
  "sample_lib order =
     \<lparr>soup_hrefs = sample_hrefs, urljoin = sample_urljoin, urlparse_scheme = sample_scheme,
      urlparse_path = sample_path, url_rejected = sample_rejected, set_iter = order\<rparr>"

definition one_page :: "string \<Rightarrow> string \<Rightarrow> web" where
  \<comment> \<open>every request fails; the rendered page of \<open>u\<close> is \<open>src\<close>, every other one is empty\<close>
  "one_page u src = \<lparr>session_get = (\<lambda>x. None), driver_get = (\<lambda>x. if x = u then Some src else Some [])\<rparr>"

definition fast_page :: "string \<Rightarrow> string \<Rightarrow> web" where
  \<comment> \<open>the request for \<open>u\<close> is answered with the page \<open>html\<close>, every other request fails\<close>
  "fast_page u html =
     \<lparr>session_get = (\<lambda>x. if x = u then Some \<lparr>content = html, text_of = html\<rparr> else None),
      driver_get = (\<lambda>x. Some [])\<rparr>"


definition sample_host :: "bool \<Rightarrow> loaded \<Rightarrow> host" where
  \<comment> \<open>a machine, with a Selenium driver or without, on which reading the input gives \<open>r\<close>\<close>
  "sample_host driver r = \<lparr>read_json = (\<lambda>p. r), driver_available = driver, dump_raises = (\<lambda>p. False)\<rparr>"

definition offline :: web where
  \<comment> \<open>every request fails and every rendered page is empty\<close>
  "offline = \<lparr>session_get = (\<lambda>u. None), driver_get = (\<lambda>u. Some [])\<rparr>"

section \<open>Properties of the DataPipeline\<close>

lemma write_rows_ok: "rows_free d = None \<Longrightarrow> write_rows rs d = (None, d\<lparr>csv_rows := csv_rows d @ rs\<rparr>)"
  by (induction rs arbitrary: d) auto

lemma data_rows_append: "data_rows (a @ b) = data_rows a @ data_rows b"
  by (simp add: data_rows_def)

lemma data_rows_Row: "data_rows (map Row q) = q"
  by (induction q) (auto simp: data_rows_def)

lemma data_rows_Nil: "data_rows [] = []"
  by (simp add: data_rows_def)

lemma data_rows_Header: "data_rows [Header h] = []"
  by (simp add: data_rows_def)

lemma save_ok:
  assumes "healthy p d" "storage_queue p \<noteq> []"
  shows "\<exists>p' d'. save_to_csv p d = (None, p', d') \<and> healthy p' d'
     \<and> storage_queue p' = [] \<and> names_seen p' = names_seen p
     \<and> storage_queue_limit p' = storage_queue_limit p
     \<and> data_rows (csv_rows d') = data_rows (csv_rows d) @ storage_queue p
     \<and> append_opens d' = Suc (append_opens d)"
  using assms
  by (auto simp: save_to_csv_def healthy_def Let_def write_rows_ok data_rows_append data_rows_Row data_rows_Header data_rows_Nil)

lemma add_data_ok:
  assumes "healthy p d"
  shows "\<exists>p' d'. add_data p d x = (None, p', d') \<and> healthy p' d'
     \<and> storage_queue_limit p' = storage_queue_limit p
     \<and> names_seen p' = names_seen p @ map name (first_seen (names_seen p) [x])
     \<and> data_rows (csv_rows d') @ storage_queue p'
         = data_rows (csv_rows d) @ storage_queue p @ first_seen (names_seen p) [x]"
proof (cases "name x \<in> set (names_seen p)")
  case True
  with assms show ?thesis by (simp add: add_data_def is_duplicate_def)
next
  case False
  let ?p2 = "p\<lparr>names_seen := names_seen p @ [name x], storage_queue := storage_queue p @ [x]\<rparr>"
  have h2: "healthy ?p2 d" using assms by (simp add: healthy_def)
  show ?thesis
  proof (cases "int (length (storage_queue ?p2)) \<ge> storage_queue_limit ?p2")
    case True
    from save_ok[OF h2] obtain p' d' where
      "save_to_csv ?p2 d = (None, p', d')" "healthy p' d'" "storage_queue p' = []"
      "names_seen p' = names_seen ?p2" "storage_queue_limit p' = storage_queue_limit ?p2"
      "data_rows (csv_rows d') = data_rows (csv_rows d) @ storage_queue ?p2"
      by auto
    with False True assms show ?thesis
      by (simp add: add_data_def is_duplicate_def healthy_def)
  next
    case ge: False
    with False assms show ?thesis
      by (simp add: add_data_def is_duplicate_def healthy_def)
  qed
qed

lemma first_seen_append_names:
  "first_seen seen (x # xs) = first_seen seen [x] @ first_seen (seen @ map name (first_seen seen [x])) xs"
  by simp

lemma add_all_ok:
  assumes "healthy p d"
  shows "\<exists>p' d'. add_all p d xs = (None, p', d') \<and> healthy p' d'
     \<and> storage_queue_limit p' = storage_queue_limit p
     \<and> names_seen p' = names_seen p @ map name (first_seen (names_seen p) xs)
     \<and> data_rows (csv_rows d') @ storage_queue p'
         = data_rows (csv_rows d) @ storage_queue p @ first_seen (names_seen p) xs"
  using assms
proof (induction xs arbitrary: p d)
  case Nil
  then show ?case by simp
next
  case (Cons x xs)
  from add_data_ok[OF Cons.prems, of x] obtain p1 d1 where
    s1: "add_data p d x = (None, p1, d1)" "healthy p1 d1"
      "storage_queue_limit p1 = storage_queue_limit p"
      "names_seen p1 = names_seen p @ map name (first_seen (names_seen p) [x])"
      "data_rows (csv_rows d1) @ storage_queue p1
         = data_rows (csv_rows d) @ storage_queue p @ first_seen (names_seen p) [x]"
    by blast
  from Cons.IH[OF s1(2)] obtain p' d' where
    s2: "add_all p1 d1 xs = (None, p', d')" "healthy p' d'"
      "storage_queue_limit p' = storage_queue_limit p1"
      "names_seen p' = names_seen p1 @ map name (first_seen (names_seen p1) xs)"
      "data_rows (csv_rows d') @ storage_queue p'
         = data_rows (csv_rows d1) @ storage_queue p1 @ first_seen (names_seen p1) xs"
    by blast
  have "add_all p d (x # xs) = (None, p', d')" using s1(1) s2(1) by simp
  moreover have "names_seen p' = names_seen p @ map name (first_seen (names_seen p) (x # xs))"
    using s1(4) s2(4) by (simp split: if_splits)
  moreover have "data_rows (csv_rows d') @ storage_queue p'
         = data_rows (csv_rows d) @ storage_queue p @ first_seen (names_seen p) (x # xs)"
    using s1(4,5) s2(5) by (simp split: if_splits)
  ultimately show ?case using s2(2,3) s1(3) by simp
qed

lemma close_ok:
  assumes "healthy p d"
  shows "\<exists>p' d'. close_pipeline p d = (None, p', d') \<and> healthy p' d'
     \<and> storage_queue p' = []
     \<and> data_rows (csv_rows d') = data_rows (csv_rows d) @ storage_queue p
     \<and> append_opens d' = append_opens d + (if storage_queue p = [] then 0 else 1)"
proof (cases "storage_queue p = []")
  case True
  with assms show ?thesis by (simp add: close_pipeline_def)
next
  case False
  with save_ok[OF assms False] show ?thesis by (auto simp: close_pipeline_def)
qed

lemma first_seen_names: "set (map name (first_seen seen xs)) \<inter> set seen = {} \<and> distinct (map name (first_seen seen xs))"
proof (induction xs arbitrary: seen)
  case Nil
  then show ?case by simp
next
  case (Cons x xs)
  from Cons.IH[of seen] Cons.IH[of "seen @ [name x]"] show ?case by auto
qed

lemma first_seen_find:
  "find (\<lambda>y. name y = k) (first_seen seen xs)
     = (if k \<in> set seen then None else find (\<lambda>y. name y = k) xs)"
proof (induction xs arbitrary: seen)
  case Nil
  then show ?case by simp
next
  case (Cons x xs)
  show ?case
    by (cases "name x \<in> set seen") (auto simp: Cons.IH)
qed

lemma first_seen_fresh:
  "distinct (map name xs) \<Longrightarrow> set (map name xs) \<inter> set seen = {} \<Longrightarrow> first_seen seen xs = xs"
  by (induction xs arbitrary: seen) auto

lemma add_data_count:
  assumes h: "healthy p d" and lim: "storage_queue_limit p = int k"
    and fresh: "name x \<notin> set (names_seen p)" and len: "length (storage_queue p) < k"
  shows "\<exists>p' d'. add_data p d x = (None, p', d') \<and> healthy p' d'
     \<and> storage_queue_limit p' = int k
     \<and> names_seen p' = names_seen p @ [name x]
     \<and> (if Suc (length (storage_queue p)) = k
         then storage_queue p' = [] \<and> append_opens d' = Suc (append_opens d)
         else storage_queue p' = storage_queue p @ [x] \<and> append_opens d' = append_opens d)"
proof -
  let ?p2 = "p\<lparr>names_seen := names_seen p @ [name x], storage_queue := storage_queue p @ [x]\<rparr>"
  have h2: "healthy ?p2 d" using h by (simp add: healthy_def)
  show ?thesis
  proof (cases "Suc (length (storage_queue p)) = k")
    case True
    from save_ok[OF h2] obtain p' d' where
      "save_to_csv ?p2 d = (None, p', d')" "healthy p' d'" "storage_queue p' = []"
      "names_seen p' = names_seen ?p2" "storage_queue_limit p' = storage_queue_limit ?p2"
      "append_opens d' = Suc (append_opens d)"
      by auto
    with True fresh lim h show ?thesis
      by (simp add: add_data_def is_duplicate_def healthy_def)
  next
    case False
    with len have "\<not> int k \<le> int (Suc (length (storage_queue p)))" by simp
    with False fresh lim h show ?thesis
      by (simp add: add_data_def is_duplicate_def healthy_def)
  qed
qed

lemma add_all_count:
  assumes "healthy p d" "storage_queue_limit p = int k"
    "distinct (map name xs)" "set (map name xs) \<inter> set (names_seen p) = {}"
    "length (storage_queue p) < k"
  shows "\<exists>p' d'. add_all p d xs = (None, p', d')
     \<and> append_opens d' = append_opens d + (length (storage_queue p) + length xs) div k
     \<and> length (storage_queue p') = (length (storage_queue p) + length xs) mod k"
  using assms
proof (induction xs arbitrary: p d)
  case Nil
  then show ?case by simp
next
  case (Cons x xs)
  have fresh: "name x \<notin> set (names_seen p)" using Cons.prems(4) by auto
  from add_data_count[OF Cons.prems(1,2) fresh Cons.prems(5)] obtain p1 d1 where
    s1: "add_data p d x = (None, p1, d1)" "healthy p1 d1" "storage_queue_limit p1 = int k"
      "names_seen p1 = names_seen p @ [name x]"
      "if Suc (length (storage_queue p)) = k
         then storage_queue p1 = [] \<and> append_opens d1 = Suc (append_opens d)
         else storage_queue p1 = storage_queue p @ [x] \<and> append_opens d1 = append_opens d"
    by blast
  have d1: "distinct (map name xs)" using Cons.prems(3) by simp
  have f1: "set (map name xs) \<inter> set (names_seen p1) = {}"
    using Cons.prems(3,4) s1(4) by auto
  have l1: "length (storage_queue p1) < k" using s1(5) Cons.prems(5) by (auto split: if_splits)
  from Cons.IH[OF s1(2,3) d1 f1 l1] obtain p' d' where
    s2: "add_all p1 d1 xs = (None, p', d')"
      "append_opens d' = append_opens d1 + (length (storage_queue p1) + length xs) div k"
      "length (storage_queue p') = (length (storage_queue p1) + length xs) mod k"
    by blast
  have run: "add_all p d (x # xs) = (None, p', d')" using s1(1) s2(1) by simp
  show ?case
  proof (cases "Suc (length (storage_queue p)) = k")
    case True
    then have e: "length (storage_queue p) + length (x # xs) = k + length xs" by simp
    have "k > 0" using True by auto
    then have dm: "(k + length xs) div k = Suc (length xs div k)"
      "(k + length xs) mod k = length xs mod k"
      by (simp_all add: div_add_self1)
    from True s1(5) have q1: "storage_queue p1 = []" "append_opens d1 = Suc (append_opens d)"
      by simp_all
    have "append_opens d' = append_opens d + (length (storage_queue p) + length (x # xs)) div k"
      unfolding e dm using s2(2) q1 by simp
    moreover have "length (storage_queue p') = (length (storage_queue p) + length (x # xs)) mod k"
      unfolding e dm using s2(3) q1 by simp
    ultimately show ?thesis using run by blast
  next
    case False
    with s1(5) s2(2,3) run show ?thesis by simp
  qed
qed

lemma write_rows_prefix:
  "write_rows rs d = (r, d') \<Longrightarrow>
     (case r of None \<Rightarrow> csv_rows d' = csv_rows d @ rs
      | Some e \<Rightarrow> \<exists>ws. csv_rows d' = csv_rows d @ ws \<and> length ws < length rs \<and> ws = take (length ws) rs)"
proof (induction rs arbitrary: d)
  case Nil
  then show ?case by simp
next
  case (Cons a rs)
  show ?case
  proof (cases "write_row a d")
    case (Inl e)
    with Cons.prems show ?thesis by auto
  next
    case (Inr d1)
    then have c1: "csv_rows d1 = csv_rows d @ [a]"
      by (auto split: option.splits nat.splits)
    from Inr Cons.prems have "write_rows rs d1 = (r, d')" by simp
    from Cons.IH[OF this] c1 show ?thesis
      by (cases r) (auto intro: exI[where x="a # ws" for ws])
  qed
qed

lemma split_by_length:
  assumes "a @ q = b @ xs" "length q = m" "m \<le> length xs"
  shows "q = drop (length xs - m) xs \<and> a = b @ take (length xs - m) xs"
proof -
  have e: "a @ q = (b @ take (length xs - m) xs) @ drop (length xs - m) xs"
    using assms(1) by simp
  have len: "length q = length (drop (length xs - m) xs)" using assms(2,3) by simp
  have "a = b @ take (length xs - m) xs \<and> q = drop (length xs - m) xs"
    by (rule append_eq_append_conv[THEN iffD1, OF disjI2[OF len] e])
  then show ?thesis by simp
qed


lemma init_fields:
  "names_seen (init_DataPipeline fn lim) = []"
  "storage_queue (init_DataPipeline fn lim) = []"
  "storage_queue_limit (init_DataPipeline fn lim) = lim"
  "csv_file_open (init_DataPipeline fn lim) = False"
  by (simp_all add: init_DataPipeline_def)

lemma good_disk_fields:
  "csv_rows (good_disk c) = c"
  "append_opens (good_disk c) = 0"
  "open_denied (good_disk c) = False"
  "rows_free (good_disk c) = None"
  by (simp_all add: good_disk_def)

lemma healthy_init: "healthy (init_DataPipeline fn lim) (good_disk c0)"
  by (simp add: healthy_def init_fields good_disk_fields)

text \<open>
  Claim C5. Whatever records are submitted, in whatever number and with whatever batch
  limit, on a disk without faults and from one thread: the submissions and the closing
  flush all return, and the records appended to the file are exactly the first-seen ones,
  in arrival order. No two of them share a name, and for every name the persisted record
  with that name is the first submitted record with that name: later ones are dropped,
  not merged, and raise nothing.
\<close>

theorem dedup_first_seen_wins:
  "\<exists>p1 d1 p2 d2.
     add_all (init_DataPipeline fn lim) (good_disk c0) xs = (None, p1, d1)
     \<and> close_pipeline p1 d1 = (None, p2, d2)
     \<and> storage_queue p2 = []
     \<and> data_rows (csv_rows d2) = data_rows c0 @ first_seen [] xs
     \<and> distinct (map name (first_seen [] xs))
     \<and> (\<forall>k. find (\<lambda>y. name y = k) (first_seen [] xs) = find (\<lambda>y. name y = k) xs)"
proof -
  from add_all_ok[OF healthy_init, of fn lim c0 xs] obtain p1 d1 where
    s1: "add_all (init_DataPipeline fn lim) (good_disk c0) xs = (None, p1, d1)" "healthy p1 d1"
      "data_rows (csv_rows d1) @ storage_queue p1 = data_rows c0 @ first_seen [] xs"
    unfolding init_fields good_disk_fields by auto
  from close_ok[OF s1(2)] obtain p2 d2 where
    s2: "close_pipeline p1 d1 = (None, p2, d2)" "storage_queue p2 = []"
      "data_rows (csv_rows d2) = data_rows (csv_rows d1) @ storage_queue p1"
    by blast
  have "distinct (map name (first_seen [] xs))" using first_seen_names[of "[]" xs] by simp
  moreover have "\<forall>k. find (\<lambda>y. name y = k) (first_seen [] xs) = find (\<lambda>y. name y = k) xs"
    by (simp add: first_seen_find)
  ultimately show ?thesis using s1(1,3) s2 by simp
qed

text \<open>Claim C5 at three submissions, the third repeating the name of the first.\<close>

theorem dedup_first_seen_wins_witness:
  "\<exists>p1 d1 p2 d2.
     add_all (init_DataPipeline ''out.csv'' 50) (good_disk [])
        [\<lparr>name = PyStr ''Acme'', url = PyStr ''u1''\<rparr>, \<lparr>name = PyStr ''Bolt'', url = PyStr ''u2''\<rparr>,
         \<lparr>name = PyStr ''Acme'', url = PyStr ''u3''\<rparr>] = (None, p1, d1)
     \<and> close_pipeline p1 d1 = (None, p2, d2)
     \<and> data_rows (csv_rows d2)
        = [\<lparr>name = PyStr ''Acme'', url = PyStr ''u1''\<rparr>, \<lparr>name = PyStr ''Bolt'', url = PyStr ''u2''\<rparr>]"
  using dedup_first_seen_wins [of "''out.csv''" 50 "[]"
      "[\<lparr>name = PyStr ''Acme'', url = PyStr ''u1''\<rparr>, \<lparr>name = PyStr ''Bolt'', url = PyStr ''u2''\<rparr>,
         \<lparr>name = PyStr ''Acme'', url = PyStr ''u3''\<rparr>]"]
  by (elim exE conjE, intro exI conjI) (assumption | simp add: data_rows_Nil)+

text \<open>
  Claim C4. \<open>N\<close> records with pairwise distinct names are submitted to a fresh pipeline
  of batch limit \<open>K\<close> on a disk without faults. \<open>\<lfloor>N/K\<rfloor>\<close> is defined for \<open>K > 0\<close> only,
  which is the hypothesis; \<open>K < N\<close> is not needed. Before \<open>close_pipeline\<close> exactly
  \<open>N div K\<close> flushes have reached the file, holding the first \<open>K * (N div K)\<close> records, and
  \<open>N mod K\<close> records wait in the queue; \<open>close_pipeline\<close> writes those (one more flush
  unless there are none), after which the file has gained exactly the \<open>N\<close> records.
\<close>

theorem batch_flush_count:
  assumes K: "0 < K" and N: "length xs = N" and dist: "distinct (map name xs)"
  shows "\<exists>p1 d1 p2 d2.
     add_all (init_DataPipeline fn (int K)) (good_disk c0) xs = (None, p1, d1)
     \<and> append_opens d1 = N div K
     \<and> storage_queue p1 = drop (K * (N div K)) xs
     \<and> length (storage_queue p1) = N mod K
     \<and> data_rows (csv_rows d1) = data_rows c0 @ take (K * (N div K)) xs
     \<and> close_pipeline p1 d1 = (None, p2, d2)
     \<and> storage_queue p2 = []
     \<and> append_opens d2 = N div K + (if N mod K = 0 then 0 else 1)
     \<and> data_rows (csv_rows d2) = data_rows c0 @ xs
     \<and> length (data_rows (csv_rows d2)) = length (data_rows c0) + N"
proof -
  let ?p0 = "init_DataPipeline fn (int K)" and ?d0 = "good_disk c0"
  have h0: "healthy ?p0 ?d0" by (rule healthy_init)
  from add_all_ok[OF h0, of xs] obtain p1 d1 where
    s1: "add_all ?p0 ?d0 xs = (None, p1, d1)" "healthy p1 d1"
      "data_rows (csv_rows d1) @ storage_queue p1 = data_rows c0 @ first_seen [] xs"
    unfolding init_fields good_disk_fields by auto
  have fs: "first_seen [] xs = xs" using dist by (simp add: first_seen_fresh)
  have "\<exists>p' d'. add_all ?p0 ?d0 xs = (None, p', d')
     \<and> append_opens d' = append_opens ?d0 + (length (storage_queue ?p0) + length xs) div K
     \<and> length (storage_queue p') = (length (storage_queue ?p0) + length xs) mod K"
    by (rule add_all_count[OF h0 _ dist]) (use K in \<open>simp_all add: init_fields\<close>)
  with s1(1) N have cnt: "append_opens d1 = N div K" "length (storage_queue p1) = N mod K"
    by (auto simp: init_fields good_disk_fields)
  have le: "N mod K \<le> length xs" using N by simp
  have nk: "length xs - N mod K = K * (N div K)"
    using N by (simp add: minus_mod_eq_mult_div)
  from split_by_length[OF s1(3)[unfolded fs] cnt(2) le]
  have parts: "storage_queue p1 = drop (K * (N div K)) xs"
    "data_rows (csv_rows d1) = data_rows c0 @ take (K * (N div K)) xs"
    unfolding nk by simp_all
  from close_ok[OF s1(2)] obtain p2 d2 where
    s2: "close_pipeline p1 d1 = (None, p2, d2)" "storage_queue p2 = []"
      "data_rows (csv_rows d2) = data_rows (csv_rows d1) @ storage_queue p1"
      "append_opens d2 = append_opens d1 + (if storage_queue p1 = [] then 0 else 1)"
    by blast
  have e: "(storage_queue p1 = []) = (N mod K = 0)" using cnt(2) by auto
  have all: "data_rows (csv_rows d2) = data_rows c0 @ xs" using s2(3) s1(3) fs by simp
  have "append_opens d2 = N div K + (if N mod K = 0 then 0 else 1)"
    using s2(4) cnt(1) e by simp
  moreover have "length (data_rows (csv_rows d2)) = length (data_rows c0) + N"
    using all N by simp
  ultimately show ?thesis using s1(1) cnt parts s2(1,2) all by simp
qed

text \<open>Claim C4 at \<open>N = 5\<close>, \<open>K = 2\<close>: two automatic flushes, one record left for the close.\<close>

theorem batch_flush_count_witness:
  "(0::nat) < 2 \<and> (\<exists>p1 d1 p2 d2.
     add_all (init_DataPipeline ''out.csv'' 2) (good_disk [])
        [\<lparr>name = PyStr ''a'', url = PyStr ''u''\<rparr>, \<lparr>name = PyStr ''b'', url = PyStr ''u''\<rparr>,
         \<lparr>name = PyStr ''c'', url = PyStr ''u''\<rparr>, \<lparr>name = PyStr ''d'', url = PyStr ''u''\<rparr>,
         \<lparr>name = PyStr ''e'', url = PyStr ''u''\<rparr>] = (None, p1, d1)
     \<and> append_opens d1 = 2
     \<and> storage_queue p1 = [\<lparr>name = PyStr ''e'', url = PyStr ''u''\<rparr>]
     \<and> close_pipeline p1 d1 = (None, p2, d2)
     \<and> append_opens d2 = 3
     \<and> length (data_rows (csv_rows d2)) = 5)"
  using batch_flush_count [of 2
      "[\<lparr>name = PyStr ''a'', url = PyStr ''u''\<rparr>, \<lparr>name = PyStr ''b'', url = PyStr ''u''\<rparr>,
         \<lparr>name = PyStr ''c'', url = PyStr ''u''\<rparr>, \<lparr>name = PyStr ''d'', url = PyStr ''u''\<rparr>,
         \<lparr>name = PyStr ''e'', url = PyStr ''u''\<rparr>]" 5 "''out.csv''" "[]"]
  apply simp
  apply (elim exE conjE, intro exI conjI)
  apply (assumption | simp add: data_rows_Nil)+
  done

lemma data_rows_take_len:
  assumes "n < length (h @ map Row q)" "h = [] \<or> h = [Header ks]" "q \<noteq> []"
  shows "length (data_rows (take n (h @ map Row q))) < length q"
proof (cases "h = []")
  case True
  with assms show ?thesis
    by (simp add: take_map data_rows_Row)
next
  case False
  with assms(2) have h: "h = [Header ks]" by simp
  show ?thesis
  proof (cases n)
    case 0
    with assms(3) show ?thesis by (simp add: data_rows_Nil)
  next
    case (Suc k)
    have "data_rows (take n (h @ map Row q)) = data_rows [Header ks] @ data_rows (map Row (take k q))"
      unfolding h Suc by (simp add: take_map data_rows_append[symmetric])
    moreover have "k < length q" using assms(1) unfolding h Suc by simp
    ultimately show ?thesis
      by (simp add: data_rows_Row data_rows_Header)
  qed
qed

text \<open>
  Claim C1, as the code has it. \<open>save_to_csv\<close> moves the queue into a local list and
  clears it before it opens the file, and handles no exception. So when the open or a
  write fails, the error leaves \<open>save_to_csv\<close> for its caller, the queue is already
  empty, \<open>csv_file_open\<close> stays set, the names of the records stay in \<open>names_seen\<close>,
  the file keeps what it held plus the rows written before the failure, and at least
  one record of the flush is not in the file.
\<close>

theorem failed_flush_empties_queue:
  assumes "save_to_csv p d = (Some e, p', d')"
  shows "storage_queue p \<noteq> [] \<and> storage_queue p' = [] \<and> csv_file_open p' = True
     \<and> names_seen p' = names_seen p
     \<and> (\<exists>ws. csv_rows d' = csv_rows d @ ws \<and> length (data_rows ws) < length (storage_queue p))"
proof -
  let ?q = "storage_queue p"
  let ?h = "if csv_rows d \<noteq> [] then [] else [Header [''name'', ''url'']]"
  let ?p2 = "p\<lparr>csv_file_open := True, storage_queue := []\<rparr>"
  have ne: "?q \<noteq> []" using assms by (auto simp: save_to_csv_def Let_def)
  show ?thesis
  proof (cases "open_denied d")
    case True
    with assms ne have "p' = ?p2" "d' = d"
      by (simp_all add: save_to_csv_def Let_def)
    with ne show ?thesis by (simp add: data_rows_Nil)
  next
    case False
    let ?d1 = "d\<lparr>append_opens := Suc (append_opens d)\<rparr>"
    obtain r d2 where w: "write_rows (?h @ map Row ?q) ?d1 = (r, d2)" by (cases "write_rows (?h @ map Row ?q) ?d1")
    with assms ne False have r: "r = Some e" and p': "p' = ?p2" and d': "d' = d2"
      by (auto simp: save_to_csv_def Let_def split: option.splits if_splits)
    from write_rows_prefix[OF w] r obtain ws where
      ws: "csv_rows d2 = csv_rows d @ ws" "length ws < length (?h @ map Row ?q)"
        "ws = take (length ws) (?h @ map Row ?q)"
      by auto
    have "length (data_rows (take (length ws) (?h @ map Row ?q))) < length ?q"
      by (rule data_rows_take_len[OF ws(2) _ ne, of "[''name'', ''url'']"]) simp
    with ws(3) have "length (data_rows ws) < length ?q" by simp
    with ws(1) ne p' d' show ?thesis by auto
  qed
qed

text \<open>Claim C1 as amended, at a disk that takes one more line: the header is written, the record is not.\<close>

theorem failed_flush_empties_queue_witness:
  "save_to_csv
     \<lparr>names_seen = [PyStr ''Acme''], storage_queue = [\<lparr>name = PyStr ''Acme'', url = PyStr ''u1''\<rparr>],
      storage_queue_limit = 50, csv_filename = ''out.csv'', csv_file_open = False\<rparr>
     \<lparr>csv_rows = [], append_opens = 0, open_denied = False, rows_free = Some 1\<rparr>
   = (Some DiskFull,
      \<lparr>names_seen = [PyStr ''Acme''], storage_queue = [],
       storage_queue_limit = 50, csv_filename = ''out.csv'', csv_file_open = True\<rparr>,
      \<lparr>csv_rows = [Header [''name'', ''url'']], append_opens = 1, open_denied = False, rows_free = Some 0\<rparr>)
   \<and> storage_queue
     \<lparr>names_seen = [PyStr ''Acme''], storage_queue = [\<lparr>name = PyStr ''Acme'', url = PyStr ''u1''\<rparr>],
      storage_queue_limit = 50, csv_filename = ''out.csv'', csv_file_open = False\<rparr> \<noteq> []"
proof -
  have run: "save_to_csv
     \<lparr>names_seen = [PyStr ''Acme''], storage_queue = [\<lparr>name = PyStr ''Acme'', url = PyStr ''u1''\<rparr>],
      storage_queue_limit = 50, csv_filename = ''out.csv'', csv_file_open = False\<rparr>
     \<lparr>csv_rows = [], append_opens = 0, open_denied = False, rows_free = Some 1\<rparr>
   = (Some DiskFull,
      \<lparr>names_seen = [PyStr ''Acme''], storage_queue = [],
       storage_queue_limit = 50, csv_filename = ''out.csv'', csv_file_open = True\<rparr>,
      \<lparr>csv_rows = [Header [''name'', ''url'']], append_opens = 1, open_denied = False, rows_free = Some 0\<rparr>)"
    by (simp add: save_to_csv_def)
  from failed_flush_empties_queue[OF run] run show ?thesis by simp
qed

text \<open>
  Claim C1 as stated fails. With batch limit 1 and a file that cannot be opened, the
  submission of one record raises \<open>PermissionError\<close>; afterwards the record is neither in
  the queue nor in the file. Submitting it again, now on a healthy disk, drops it as a
  duplicate, and \<open>close_pipeline\<close> has nothing to write: the record is never persisted
  and no later call reports it.
\<close>

theorem failed_flush_loses_record:
  "add_data (init_DataPipeline ''out.csv'' 1)
       \<lparr>csv_rows = [], append_opens = 0, open_denied = True, rows_free = None\<rparr>
       \<lparr>name = PyStr ''Acme'', url = PyStr ''u1''\<rparr>
   = (Some PermissionError,
      \<lparr>names_seen = [PyStr ''Acme''], storage_queue = [],
       storage_queue_limit = 1, csv_filename = ''out.csv'', csv_file_open = True\<rparr>,
      \<lparr>csv_rows = [], append_opens = 0, open_denied = True, rows_free = None\<rparr>)
   \<and> add_data
       \<lparr>names_seen = [PyStr ''Acme''], storage_queue = [],
        storage_queue_limit = 1, csv_filename = ''out.csv'', csv_file_open = True\<rparr>
       (good_disk []) \<lparr>name = PyStr ''Acme'', url = PyStr ''u1''\<rparr>
   = (None,
      \<lparr>names_seen = [PyStr ''Acme''], storage_queue = [],
       storage_queue_limit = 1, csv_filename = ''out.csv'', csv_file_open = True\<rparr>,
      good_disk [])
   \<and> close_pipeline
       \<lparr>names_seen = [PyStr ''Acme''], storage_queue = [],
        storage_queue_limit = 1, csv_filename = ''out.csv'', csv_file_open = True\<rparr>
       (good_disk [])
   = (None,
      \<lparr>names_seen = [PyStr ''Acme''], storage_queue = [],
       storage_queue_limit = 1, csv_filename = ''out.csv'', csv_file_open = True\<rparr>,
      good_disk [])"
  by (simp add: add_data_def is_duplicate_def init_DataPipeline_def save_to_csv_def close_pipeline_def)

text \<open>
  Claim C10 at a name of one blank: the name is not the empty string, so no placeholder
  is set, and stripping then leaves the empty string as the name.
\<close>

theorem check_string_fields_blank_name:
  "mk_SearchData (PyStr '' '') (PyStr ''https://www.yelp.com/biz/a'')
     = \<lparr>name = PyStr [], url = PyStr ''https://www.yelp.com/biz/a''\<rparr>"
  by (simp add: mk_SearchData_def check_string_fields_def check_field_def py_strip_def is_space_def)

section \<open>Properties of the contact finder\<close>

lemma recognises_Cls: "recognises (Cls p) {[c] | c. p c}"
  by (auto simp: recognises_def split: list.splits)

lemma recognises_Chr: "recognises (Chr c) {[c]}"
  using recognises_Cls[of "\<lambda>x. x = c"] by (simp add: Chr_def)

lemma recognises_Seq:
  assumes "recognises a A" "recognises b B"
  shows "recognises (Seq a b) {u @ v | u v. u \<in> A \<and> v \<in> B}"
  unfolding recognises_def
proof (intro allI)
  fix s s'
  have "(s' \<in> set (ms (Seq a b) s)) = (\<exists>s1. s1 \<in> set (ms a s) \<and> s' \<in> set (ms b s1))"
    by auto
  also have "\<dots> = (\<exists>s1 u v. u \<in> A \<and> s = u @ s1 \<and> v \<in> B \<and> s1 = v @ s')"
    using assms by (auto simp: recognises_def)
  also have "\<dots> = (\<exists>u v. u \<in> A \<and> v \<in> B \<and> s = (u @ v) @ s')"
    by auto
  also have "\<dots> = (\<exists>w. w \<in> {u @ v | u v. u \<in> A \<and> v \<in> B} \<and> s = w @ s')"
    by blast
  finally show "(s' \<in> set (ms (Seq a b) s)) = (\<exists>w. w \<in> {u @ v | u v. u \<in> A \<and> v \<in> B} \<and> s = w @ s')" .
qed

lemma star_iter_Cls:
  "set (star_iter (ms (Cls p)) n s) = {s'. \<exists>w. s = w @ s' \<and> list_all p w \<and> length w \<le> n}"
proof (induction n arbitrary: s)
  case 0
  then show ?case by auto
next
  case (Suc n)
  show ?case
  proof (cases s)
    case Nil
    then show ?thesis by auto
  next
    case (Cons c cs)
    show ?thesis
    proof (cases "p c")
      case True
      have "set (star_iter (ms (Cls p)) (Suc n) s) = set (star_iter (ms (Cls p)) n cs) \<union> {s}"
        using Cons True by simp
      also have "\<dots> = {s'. \<exists>w. cs = w @ s' \<and> list_all p w \<and> length w \<le> n} \<union> {s}"
        by (simp add: Suc.IH)
      also have "\<dots> = {s'. \<exists>w. s = w @ s' \<and> list_all p w \<and> length w \<le> Suc n}"
      proof (intro set_eqI iffI)
        fix x assume "x \<in> {s'. \<exists>w. cs = w @ s' \<and> list_all p w \<and> length w \<le> n} \<union> {s}"
        then consider w where "cs = w @ x" "list_all p w" "length w \<le> n" | "x = s" by auto
        then show "x \<in> {s'. \<exists>w. s = w @ s' \<and> list_all p w \<and> length w \<le> Suc n}"
        proof cases
          case 1
          then have "s = (c # w) @ x \<and> list_all p (c # w) \<and> length (c # w) \<le> Suc n"
            using Cons True by simp
          then show ?thesis by blast
        next
          case 2
          then have "s = [] @ x \<and> list_all p [] \<and> length ([]::string) \<le> Suc n" by simp
          then show ?thesis by blast
        qed
      next
        fix x assume "x \<in> {s'. \<exists>w. s = w @ s' \<and> list_all p w \<and> length w \<le> Suc n}"
        then obtain w where w: "s = w @ x" "list_all p w" "length w \<le> Suc n" by auto
        show "x \<in> {s'. \<exists>w. cs = w @ s' \<and> list_all p w \<and> length w \<le> n} \<union> {s}"
        proof (cases w)
          case Nil
          with w show ?thesis by simp
        next
          case (Cons a w')
          with w \<open>s = c # cs\<close> have "cs = w' @ x" "list_all p w'" "length w' \<le> n" by auto
          then show ?thesis by blast
        qed
      qed
      finally show ?thesis .
    next
      case False
      have a: "set (star_iter (ms (Cls p)) (Suc n) s) = {s}" using Cons False by simp
      have b: "{s'. \<exists>w. s = w @ s' \<and> list_all p w \<and> length w \<le> Suc n} = {s}"
      proof (intro set_eqI iffI)
        fix x assume "x \<in> {s'. \<exists>w. s = w @ s' \<and> list_all p w \<and> length w \<le> Suc n}"
        then obtain w where w: "s = w @ x" "list_all p w" by auto
        have "w = []"
        proof (cases w)
          case Nil then show ?thesis .
        next
          case (Cons a w')
          with w \<open>s = c # cs\<close> False show ?thesis by auto
        qed
        with w show "x \<in> {s}" by simp
      next
        fix x assume "x \<in> {s}"
        then have "s = [] @ x \<and> list_all p [] \<and> length ([]::string) \<le> Suc n" by simp
        then show "x \<in> {s'. \<exists>w. s = w @ s' \<and> list_all p w \<and> length w \<le> Suc n}" by blast
      qed
      show ?thesis by (simp only: a b)
    qed
  qed
qed

lemma recognises_Star_Cls: "recognises (Star (Cls p)) {w. list_all p w}"
  unfolding recognises_def
proof (intro allI)
  fix s s'
  have "(s' \<in> set (ms (Star (Cls p)) s)) = (\<exists>w. s = w @ s' \<and> list_all p w \<and> length w \<le> length s)"
    by (simp add: star_iter_Cls)
  also have "\<dots> = (\<exists>w. w \<in> {w. list_all p w} \<and> s = w @ s')"
    by auto
  finally show "(s' \<in> set (ms (Star (Cls p)) s)) = (\<exists>w. w \<in> {w. list_all p w} \<and> s = w @ s')" .
qed

lemma recognises_Plus_Cls: "recognises (Plus (Cls p)) {w. w \<noteq> [] \<and> list_all p w}"
proof -
  have "recognises (Plus (Cls p)) {u @ v | u v. u \<in> {[c] | c. p c} \<and> v \<in> {w. list_all p w}}"
    unfolding Plus_def by (rule recognises_Seq[OF recognises_Cls recognises_Star_Cls])
  moreover have "{u @ v | u v. u \<in> {[c] | c. p c} \<and> v \<in> {w. list_all p w}} = {w. w \<noteq> [] \<and> list_all p w}"
  proof (intro set_eqI iffI)
    fix x assume "x \<in> {w. w \<noteq> [] \<and> list_all p w}"
    then obtain c w where "x = [c] @ w" "p c" "list_all p w" by (cases x) auto
    then show "x \<in> {u @ v | u v. u \<in> {[c] | c. p c} \<and> v \<in> {w. list_all p w}}" by blast
  qed auto
  ultimately show ?thesis by simp
qed

lemma recognises_AtLeast2:
  "recognises (Seq (Cls p) (Seq (Cls p) (Star (Cls p)))) {w. 2 \<le> length w \<and> list_all p w}"
proof -
  have "recognises (Seq (Cls p) (Seq (Cls p) (Star (Cls p))))
     {u @ v | u v. u \<in> {[c] | c. p c} \<and> v \<in> {w. w \<noteq> [] \<and> list_all p w}}"
    using recognises_Seq[OF recognises_Cls recognises_Plus_Cls[unfolded Plus_def]] .
  moreover have "{u @ v | u v. u \<in> {[c] | c. p c} \<and> v \<in> {w. w \<noteq> [] \<and> list_all p w}}
      = {w. 2 \<le> length w \<and> list_all p w}"
  proof (intro set_eqI iffI)
    fix x assume "x \<in> {w. 2 \<le> length w \<and> list_all p w}"
    then have l: "2 \<le> length x" "list_all p x" by auto
    then obtain c w where x: "x = c # w" by (cases x) auto
    with l have "x = [c] @ w" "p c" "list_all p w" "w \<noteq> []" by auto
    then show "x \<in> {u @ v | u v. u \<in> {[c] | c. p c} \<and> v \<in> {w. w \<noteq> [] \<and> list_all p w}}" by blast
  next
    fix x assume "x \<in> {u @ v | u v. u \<in> {[c] | c. p c} \<and> v \<in> {w. w \<noteq> [] \<and> list_all p w}}"
    then obtain c w where "x = [c] @ w" "p c" "list_all p w" "w \<noteq> []" by auto
    then show "x \<in> {w. 2 \<le> length w \<and> list_all p w}" by (cases w) auto
  qed
  ultimately show ?thesis by simp
qed

lemma recognises_EMAIL: "recognises EMAIL_REGEX {v. email_shape v}"
proof -
  let ?T = "{w. 2 \<le> length w \<and> list_all is_alpha w}"
  let ?D = "{w. w \<noteq> [] \<and> list_all email_domain w}"
  let ?L = "{w. w \<noteq> [] \<and> list_all email_local w}"
  let ?S4 = "{u @ v | u v. u \<in> {''.''} \<and> v \<in> ?T}"
  let ?S3 = "{u @ v | u v. u \<in> ?D \<and> v \<in> ?S4}"
  let ?S2 = "{u @ v | u v. u \<in> {''@''} \<and> v \<in> ?S3}"
  let ?S1 = "{u @ v | u v. u \<in> ?L \<and> v \<in> ?S2}"
  have "recognises EMAIL_REGEX ?S1"
    unfolding EMAIL_REGEX_def
    by (intro recognises_Seq recognises_Plus_Cls recognises_Chr recognises_AtLeast2)
  moreover have "?S1 = {v. email_shape v}"
  proof (intro set_eqI iffI)
    fix x assume "x \<in> ?S1"
    then obtain l d t where "x = l @ ''@'' @ d @ ''.'' @ t" "l \<in> ?L" "d \<in> ?D" "t \<in> ?T" by auto
    then show "x \<in> {v. email_shape v}" unfolding email_shape_def by blast
  next
    fix x assume "x \<in> {v. email_shape v}"
    then obtain l d t where x: "x = l @ ''@'' @ d @ ''.'' @ t" and "l \<in> ?L" "d \<in> ?D" "t \<in> ?T"
      unfolding email_shape_def by auto
    then have "''.'' @ t \<in> ?S4" by blast
    with \<open>d \<in> ?D\<close> have "d @ ''.'' @ t \<in> ?S3" by blast
    then have "''@'' @ d @ ''.'' @ t \<in> ?S2" by blast
    with \<open>l \<in> ?L\<close> have "l @ ''@'' @ d @ ''.'' @ t \<in> ?S1" by blast
    with x show "x \<in> ?S1" by simp
  qed
  ultimately show ?thesis by simp
qed

lemma fullmatch_recognises: "recognises r L \<Longrightarrow> rx_fullmatch r v = (v \<in> L)"
  by (simp add: rx_fullmatch_def recognises_def)

lemma match_recognises_Some:
  assumes "recognises r L" "rx_match r s = Some m"
  shows "m \<in> L \<and> (\<exists>s'. s = m @ s')"
proof -
  from assms(2) obtain s' rest where ms: "ms r s = s' # rest" and m: "m = take (length s - length s') s"
    by (auto simp: rx_match_def split: list.splits)
  then have "s' \<in> set (ms r s)" by simp
  with assms(1) obtain v where v: "v \<in> L" "s = v @ s'" by (auto simp: recognises_def)
  with m have "m = v" by simp
  with v show ?thesis by blast
qed

lemma match_recognises_None:
  assumes "recognises r L"
  shows "(rx_match r s = None) = (\<not> (\<exists>v w. s = v @ w \<and> v \<in> L))"
proof -
  have "(rx_match r s = None) = (ms r s = [])"
    by (simp add: rx_match_def split: list.splits)
  also have "\<dots> = (\<forall>s'. s' \<notin> set (ms r s))" by (cases "ms r s") auto
  also have "\<dots> = (\<not> (\<exists>v w. s = v @ w \<and> v \<in> L))"
    using assms by (auto simp: recognises_def)
  finally show ?thesis .
qed

lemma search_recognises_None:
  assumes "recognises r L"
  shows "rx_search r s = None \<Longrightarrow> \<not> (\<exists>u v w. s = u @ v @ w \<and> v \<in> L)"
proof (induction s)
  case Nil
  then have "\<not> (\<exists>v w. [] = v @ w \<and> v \<in> L)"
    using match_recognises_None[OF assms, of "[]"] by simp
  then show ?case by auto
next
  case (Cons c cs)
  from Cons.prems have m: "rx_match r (c # cs) = None" and s: "rx_search r cs = None"
    by (auto split: option.splits)
  from m have nohead: "\<not> (\<exists>v w. c # cs = v @ w \<and> v \<in> L)"
    using match_recognises_None[OF assms, of "c # cs"] by simp
  from Cons.IH[OF s] have notail: "\<not> (\<exists>u v w. cs = u @ v @ w \<and> v \<in> L)" .
  show ?case
  proof
    assume "\<exists>u v w. c # cs = u @ v @ w \<and> v \<in> L"
    then obtain u v w where e: "c # cs = u @ v @ w" "v \<in> L" by blast
    show False
    proof (cases u)
      case Nil
      with e nohead show False by auto
    next
      case (Cons a u')
      with e have "cs = u' @ v @ w" by simp
      with e(2) notail show False by blast
    qed
  qed
qed

lemma search_recognises_Some:
  assumes "recognises r L"
  shows "rx_search r s = Some m \<Longrightarrow>
     \<exists>u w. s = u @ m @ w \<and> m \<in> L
       \<and> (\<forall>u' v' w'. s = u' @ v' @ w' \<and> v' \<in> L \<longrightarrow> length u \<le> length u')"
proof (induction s)
  case Nil
  then have "rx_match r [] = Some m" by simp
  from match_recognises_Some[OF assms this] have "m \<in> L" "m = []" by auto
  then have "[] = [] @ m @ [] \<and> m \<in> L
     \<and> (\<forall>u' v' w'. [] = u' @ v' @ w' \<and> v' \<in> L \<longrightarrow> length ([]::string) \<le> length u')"
    by simp
  then show ?case by blast
next
  case (Cons c cs)
  show ?case
  proof (cases "rx_match r (c # cs)")
    case (Some m')
    with Cons.prems have "m' = m" by simp
    with Some match_recognises_Some[OF assms, of "c # cs" m] obtain w where
      "m \<in> L" "c # cs = m @ w" by auto
    then have "c # cs = [] @ m @ w \<and> m \<in> L
      \<and> (\<forall>u' v' w'. c # cs = u' @ v' @ w' \<and> v' \<in> L \<longrightarrow> length ([]::string) \<le> length u')"
      by simp
    then show ?thesis by blast
  next
    case None
    then have nohead: "\<not> (\<exists>v w. c # cs = v @ w \<and> v \<in> L)"
      using match_recognises_None[OF assms, of "c # cs"] by simp
    from None Cons.prems have "rx_search r cs = Some m" by simp
    from Cons.IH[OF this] obtain u w where
      t: "cs = u @ m @ w" "m \<in> L"
        "\<forall>u' v' w'. cs = u' @ v' @ w' \<and> v' \<in> L \<longrightarrow> length u \<le> length u'"
      by blast
    have least: "\<forall>u' v' w'. c # cs = u' @ v' @ w' \<and> v' \<in> L \<longrightarrow> length (c # u) \<le> length u'"
    proof (intro allI impI)
      fix u' v' w' assume a: "c # cs = u' @ v' @ w' \<and> v' \<in> L"
      show "length (c # u) \<le> length u'"
      proof (cases u')
        case Nil
        with a nohead show ?thesis by auto
      next
        case (Cons a' u'')
        with a have "cs = u'' @ v' @ w' \<and> v' \<in> L" by simp
        with t(3) have "length u \<le> length u''" by blast
        with Cons show ?thesis by simp
      qed
    qed
    have "c # cs = (c # u) @ m @ w" using t(1) by simp
    with t(2) least show ?thesis by blast
  qed
qed

lemma lower_char_alpha: "is_alpha c \<Longrightarrow> is_alpha (lower_char c)"
  by (auto simp: is_alpha_def is_lower_def is_upper_def lower_char_def Let_def)

lemma lower_char_fixed:
  "\<not> is_upper c \<Longrightarrow> (of_char c :: nat) < 192 \<Longrightarrow> lower_char c = c"
  by (simp add: lower_char_def Let_def)

lemma lower_char_local: "email_local c \<Longrightarrow> email_local (lower_char c)"
  unfolding email_local_def
  by (auto simp: lower_char_alpha is_alpha_def is_lower_def is_upper_def is_digit_def lower_char_def Let_def)

lemma lower_char_domain: "email_domain c \<Longrightarrow> email_domain (lower_char c)"
  unfolding email_domain_def
  by (auto simp: lower_char_alpha is_alpha_def is_lower_def is_upper_def is_digit_def lower_char_def Let_def)

lemma py_lower_all: "(\<And>c. p c \<Longrightarrow> p (lower_char c)) \<Longrightarrow> list_all p w \<Longrightarrow> list_all p (py_lower w)"
  by (induction w) (auto simp: py_lower_def)

lemma email_shape_lower: "email_shape v \<Longrightarrow> email_shape (py_lower v)"
proof -
  assume "email_shape v"
  then obtain l d t where x: "v = l @ ''@'' @ d @ ''.'' @ t"
    "l \<noteq> []" "list_all email_local l" "d \<noteq> []" "list_all email_domain d"
    "2 \<le> length t" "list_all is_alpha t"
    unfolding email_shape_def by blast
  have "py_lower v = py_lower l @ ''@'' @ py_lower d @ ''.'' @ py_lower t"
    unfolding x(1) by (simp add: py_lower_def lower_char_def is_upper_def)
  moreover have "py_lower l \<noteq> []" "py_lower d \<noteq> []" "2 \<le> length (py_lower t)"
    using x by (simp_all add: py_lower_def)
  moreover have "list_all email_local (py_lower l)" "list_all email_domain (py_lower d)"
    "list_all is_alpha (py_lower t)"
    using x py_lower_all[of email_local, OF lower_char_local]
      py_lower_all[of email_domain, OF lower_char_domain]
      py_lower_all[of is_alpha, OF lower_char_alpha] by simp_all
  ultimately show ?thesis unfolding email_shape_def by blast
qed

text \<open>
  Claim C7. For every text, \<open>_extraer_primer_email_valido_de_texto\<close> returns \<open>None\<close>
  exactly when no substring of the text has the shape \<open>local-part@domain.tld\<close>; otherwise
  it returns the lowercased form of a substring of that shape which starts at the
  leftmost position where any such substring starts, and the returned string itself has
  the shape and passes \<open>EMAIL_REGEX.fullmatch\<close>.
\<close>

theorem extraer_primer_email_spec:
  "(case extraer_primer_email_valido_de_texto texto of
      None \<Rightarrow> \<not> (\<exists>u v w. texto = u @ v @ w \<and> email_shape v)
    | Some e \<Rightarrow>
        email_shape e \<and> rx_fullmatch EMAIL_REGEX e
        \<and> (\<exists>u v w. texto = u @ v @ w \<and> email_shape v \<and> e = py_lower v
              \<and> (\<forall>u' v' w'. texto = u' @ v' @ w' \<and> email_shape v' \<longrightarrow> length u \<le> length u')))"
proof (cases "rx_search EMAIL_REGEX texto")
  case None
  from search_recognises_None[OF recognises_EMAIL None]
  have "\<not> (\<exists>u v w. texto = u @ v @ w \<and> email_shape v)" by simp
  with None show ?thesis by (simp add: extraer_primer_email_valido_de_texto_def)
next
  case (Some m)
  from search_recognises_Some[OF recognises_EMAIL Some] obtain u w where
    m: "texto = u @ m @ w" "email_shape m"
      "\<forall>u' v' w'. texto = u' @ v' @ w' \<and> email_shape v' \<longrightarrow> length u \<le> length u'"
    by auto
  have low: "email_shape (py_lower m)" by (rule email_shape_lower[OF m(2)])
  then have full: "rx_fullmatch EMAIL_REGEX (py_lower m)"
    by (simp add: fullmatch_recognises[OF recognises_EMAIL])
  with Some have res: "extraer_primer_email_valido_de_texto texto = Some (py_lower m)"
    by (simp add: extraer_primer_email_valido_de_texto_def)
  from m have "\<exists>u v w. texto = u @ v @ w \<and> email_shape v \<and> py_lower m = py_lower v
              \<and> (\<forall>u' v' w'. texto = u' @ v' @ w' \<and> email_shape v' \<longrightarrow> length u \<le> length u')"
    by blast
  with res low full show ?thesis by simp
qed

text \<open>Claim C7 at a text with two addresses: the first one, lowercased.\<close>

theorem extraer_primer_email_spec_witness:
  "extraer_primer_email_valido_de_texto ''Mail Info@Acme.example, or b@c.de'' = Some ''info@acme.example''
   \<and> email_shape ''info@acme.example'' \<and> rx_fullmatch EMAIL_REGEX ''info@acme.example''"
proof -
  have e: "extraer_primer_email_valido_de_texto ''Mail Info@Acme.example, or b@c.de'' = Some ''info@acme.example''"
    by code_simp
  from extraer_primer_email_spec[of "''Mail Info@Acme.example, or b@c.de''"] e
  show ?thesis by simp
qed

lemma extraer_truthy:
  "extraer_primer_email_valido_de_texto t = Some e \<Longrightarrow> e \<noteq> []"
proof -
  assume a: "extraer_primer_email_valido_de_texto t = Some e"
  then have "rx_fullmatch EMAIL_REGEX e"
    by (auto simp: extraer_primer_email_valido_de_texto_def Let_def split: option.splits if_splits)
  then have "email_shape e" by (simp add: fullmatch_recognises[OF recognises_EMAIL])
  then show "e \<noteq> []" by (auto simp: email_shape_def)
qed

lemma mailto_scan_find:
  "mailto_scan hrefs = (case find valid_mailto hrefs of None \<Rightarrow> None | Some h \<Rightarrow> Some (mailto_target h))"
  by (induction hrefs)
    (simp_all add: Let_def valid_mailto_def mailto_target_def fullmatch_recognises[OF recognises_EMAIL])

lemma email_shape_code: "email_shape v = rx_fullmatch EMAIL_REGEX v"
  by (simp add: fullmatch_recognises[OF recognises_EMAIL])

text \<open>
  Claim C6. When the request succeeds and some anchor of the page is a \<open>mailto:\<close> link
  whose target (prefix stripped, query removed, trimmed, lowercased) is a valid address,
  \<open>buscar_primer_email_con_requests\<close> returns the target of the first such anchor,
  whatever address the text of the page holds.
\<close>

theorem mailto_wins:
  assumes "session_get W u = Some respuesta"
    and "\<exists>h \<in> set (soup_hrefs L (content respuesta)). valid_mailto h"
  shows "\<exists>h. find valid_mailto (soup_hrefs L (content respuesta)) = Some h
     \<and> buscar_primer_email_con_requests L W u = Some (mailto_target h)"
proof -
  from assms(2) obtain h where h: "find valid_mailto (soup_hrefs L (content respuesta)) = Some h"
    by (cases "find valid_mailto (soup_hrefs L (content respuesta))") (auto simp: find_None_iff)
  then have "mailto_scan (soup_hrefs L (content respuesta)) = Some (mailto_target h)"
    by (simp add: mailto_scan_find)
  with assms(1) h show ?thesis by (simp add: buscar_primer_email_con_requests_def)
qed

text \<open>
  Claim C6 at a page whose text starts with another address: the search in the text
  alone gives that address, the function gives the \<open>mailto:\<close> target.
\<close>

theorem mailto_wins_witness:
  "buscar_primer_email_con_requests (sample_lib rev)
      (fast_page ''https://acme.example''
         ''sales@acme.example <a href=\"mailto:Info@Acme.example?subject=Hi\">Mail</a>'')
      ''https://acme.example'' = Some ''info@acme.example''
   \<and> valid_mailto ''mailto:Info@Acme.example?subject=Hi''
   \<and> extraer_primer_email_valido_de_texto
        ''sales@acme.example <a href=\"mailto:Info@Acme.example?subject=Hi\">Mail</a>''
       = Some ''sales@acme.example''"
proof -
  let ?P = "''sales@acme.example <a href=\"mailto:Info@Acme.example?subject=Hi\">Mail</a>''"
  let ?W = "fast_page ''https://acme.example'' ?P"
  let ?h = "''mailto:Info@Acme.example?subject=Hi''"
  have vm: "valid_mailto ?h"
    unfolding valid_mailto_def email_shape_code by code_simp
  have tg: "mailto_target ?h = ''info@acme.example''" by code_simp
  have sg: "session_get ?W ''https://acme.example'' = Some \<lparr>content = ?P, text_of = ?P\<rparr>"
    by (simp add: fast_page_def)
  have hs: "soup_hrefs (sample_lib rev) (content \<lparr>content = ?P, text_of = ?P\<rparr>) = [?h]"
    by (simp add: sample_lib_def sample_hrefs_def)
  have ex: "\<exists>h \<in> set (soup_hrefs (sample_lib rev) (content \<lparr>content = ?P, text_of = ?P\<rparr>)). valid_mailto h"
    unfolding hs using vm by simp
  have tx: "extraer_primer_email_valido_de_texto ?P = Some ''sales@acme.example''" by code_simp
  from mailto_wins[OF sg ex] vm tg tx show ?thesis unfolding hs by simp
qed

lemma startswith_split: "startswith p s \<Longrightarrow> s = p @ drop (length p) s"
  unfolding startswith_def by (metis append_take_drop_id)

lemma ms_Lit: "ms (Lit w) s = (if startswith w s then [drop (length w) s] else [])"
proof (induction w arbitrary: s)
  case Nil
  then show ?case by (simp add: Lit_def startswith_def)
next
  case (Cons c w)
  have L: "Lit (c # w) = Seq (Chr c) (Lit w)" by (simp add: Lit_def)
  show ?case
  proof (cases s)
    case Nil
    then show ?thesis by (simp add: L Chr_def startswith_def)
  next
    case (Cons x xs)
    then show ?thesis using Cons.IH[of xs]
      by (auto simp: L Chr_def startswith_def)
  qed
qed

lemma ms_Seq_nonempty: "ms (Seq a b) s \<noteq> [] \<Longrightarrow> \<exists>s1 \<in> set (ms a s). ms b s1 \<noteq> []"
  by auto

lemma ms_alts_empty: "(ms (alts rs) s = []) = (\<forall>r \<in> set rs. ms r s = [])"
  by (induction rs rule: alts.induct) (auto split: list.splits)

lemma ms_Opt_Chr: "s2 \<in> set (ms (Opt (Chr c)) s1) \<Longrightarrow> s1 = s2 \<or> s1 = c # s2"
  by (auto simp: Chr_def split: list.splits if_splits)

lemma ms_Opt_Lit: "s2 \<in> set (ms (Opt (Lit w)) s1) \<Longrightarrow> s1 = s2 \<or> s1 = w @ s2"
  using startswith_split[of w s1] by (auto simp: ms_Lit split: if_splits)

lemma ms_Lit_mem: "s2 \<in> set (ms (Lit w) s1) \<Longrightarrow> s1 = w @ s2"
  using startswith_split[of w s1] by (auto simp: ms_Lit split: if_splits)

lemma fb_match_shape:
  assumes "ms FACEBOOK_PROFILE_REGEX u \<noteq> []"
  shows "\<exists>pre rest. u = pre @ rest \<and> pre \<in> set FB_PREFIXES \<and> ms FB_DENY rest = []"
proof -
  let ?tail = "Seq (Seq (Plus (Cls fb_segment)) (Star (Seq (Chr CHR ''/'') (Plus (Cls fb_segment)))))
               (Opt (Chr CHR ''/''))"
  let ?r5 = "Seq (NotAhead FB_DENY) ?tail"
  let ?r4 = "Seq (Lit ''facebook.com/'') ?r5"
  let ?r3 = "Seq (Opt (Lit ''www.'')) ?r4"
  let ?r2 = "Seq (Lit ''://'') ?r3"
  let ?r1 = "Seq (Opt (Chr CHR ''s'')) ?r2"
  have "ms (Seq (Lit ''http'') ?r1) u \<noteq> []"
    using assms unfolding FACEBOOK_PROFILE_REGEX_def .
  from ms_Seq_nonempty[OF this] obtain s1 where s1: "s1 \<in> set (ms (Lit ''http'') u)" "ms ?r1 s1 \<noteq> []"
    by blast
  from ms_Seq_nonempty[OF s1(2)] obtain s2 where s2: "s2 \<in> set (ms (Opt (Chr CHR ''s'')) s1)" "ms ?r2 s2 \<noteq> []"
    by blast
  from ms_Seq_nonempty[OF s2(2)] obtain s3 where s3: "s3 \<in> set (ms (Lit ''://'') s2)" "ms ?r3 s3 \<noteq> []"
    by blast
  from ms_Seq_nonempty[OF s3(2)] obtain s4 where s4: "s4 \<in> set (ms (Opt (Lit ''www.'')) s3)" "ms ?r4 s4 \<noteq> []"
    by blast
  from ms_Seq_nonempty[OF s4(2)] obtain s5 where s5: "s5 \<in> set (ms (Lit ''facebook.com/'') s4)" "ms ?r5 s5 \<noteq> []"
    by blast
  from ms_Seq_nonempty[OF s5(2)] obtain s6 where s6: "s6 \<in> set (ms (NotAhead FB_DENY) s5)"
    by blast
  then have deny: "ms FB_DENY s5 = []" by (simp split: if_splits)
  have e1: "u = ''http'' @ s1" by (rule ms_Lit_mem[OF s1(1)])
  have e2: "s1 = s2 \<or> s1 = CHR ''s'' # s2" by (rule ms_Opt_Chr[OF s2(1)])
  have e3: "s2 = ''://'' @ s3" by (rule ms_Lit_mem[OF s3(1)])
  have e4: "s3 = s4 \<or> s3 = ''www.'' @ s4" by (rule ms_Opt_Lit[OF s4(1)])
  have e5: "s4 = ''facebook.com/'' @ s5" by (rule ms_Lit_mem[OF s5(1)])
  from e2 e4 have "\<exists>pre. u = pre @ s5 \<and> pre \<in> set FB_PREFIXES"
  proof (elim disjE)
    assume "s1 = s2" "s3 = s4"
    with e1 e3 e5 have "u = ''http://facebook.com/'' @ s5" by simp
    then show ?thesis by (auto simp: FB_PREFIXES_def)
  next
    assume "s1 = s2" "s3 = ''www.'' @ s4"
    with e1 e3 e5 have "u = ''http://www.facebook.com/'' @ s5" by simp
    then show ?thesis by (auto simp: FB_PREFIXES_def)
  next
    assume "s1 = CHR ''s'' # s2" "s3 = s4"
    with e1 e3 e5 have "u = ''https://facebook.com/'' @ s5" by simp
    then show ?thesis by (auto simp: FB_PREFIXES_def)
  next
    assume "s1 = CHR ''s'' # s2" "s3 = ''www.'' @ s4"
    with e1 e3 e5 have "u = ''https://www.facebook.com/'' @ s5" by simp
    then show ?thesis by (auto simp: FB_PREFIXES_def)
  qed
  with deny show ?thesis by blast
qed

lemma fb_deny_words:
  assumes "ms FB_DENY rest = []"
  shows "(\<forall>w \<in> set FB_DENY_WORDS. \<not> startswith w rest) \<and> rx_match FB_BADGE rest = None"
proof -
  from assms have all: "\<forall>r \<in> set (map Lit (take 5 FB_DENY_WORDS) @ [FB_BADGE] @ map Lit (drop 5 FB_DENY_WORDS)).
      ms r rest = []"
    by (simp only: FB_DENY_def ms_alts_empty)
  have "\<forall>w \<in> set FB_DENY_WORDS. \<not> startswith w rest"
  proof
    fix w assume "w \<in> set FB_DENY_WORDS"
    then have "w \<in> set (take 5 FB_DENY_WORDS @ drop 5 FB_DENY_WORDS)" by simp
    then have "Lit w \<in> set (map Lit (take 5 FB_DENY_WORDS) @ [FB_BADGE] @ map Lit (drop 5 FB_DENY_WORDS))"
      by (simp del: append_take_drop_id) blast
    with all have "ms (Lit w) rest = []" by blast
    then show "\<not> startswith w rest" by (simp add: ms_Lit split: if_splits)
  qed
  moreover have "ms FB_BADGE rest = []" using all by simp
  then have "rx_match FB_BADGE rest = None" by (simp add: rx_match_def)
  ultimately show ?thesis by simp
qed

lemma fold_set_add:
  "distinct acc \<Longrightarrow>
   distinct (fold (\<lambda>h a. let x = f h in if P x then set_add x a else a) hs acc)
   \<and> set (fold (\<lambda>h a. let x = f h in if P x then set_add x a else a) hs acc)
       = set acc \<union> {f h | h. h \<in> set hs \<and> P (f h)}"
proof (induction hs arbitrary: acc)
  case Nil
  then show ?case by simp
next
  case (Cons h hs)
  let ?acc1 = "(let x = f h in if P x then set_add x acc else acc)"
  have d1: "distinct ?acc1" using Cons.prems by (simp add: Let_def set_add_def)
  have s1: "set ?acc1 = set acc \<union> (if P (f h) then {f h} else {})"
    by (auto simp: Let_def set_add_def)
  from Cons.IH[OF d1] s1 show ?case by (auto simp: Let_def)
qed

lemma iterates_sets_sample_rev: "iterates_sets (sample_lib rev)"
  by (simp add: iterates_sets_def sample_lib_def)

lemma iterates_sets_sample_id: "iterates_sets (sample_lib (\<lambda>xs. xs))"
  by (simp add: iterates_sets_def sample_lib_def)

text \<open>
  Claim C8. Whatever the HTML and the base URL, and in whatever order sets are iterated:
  the list returned by \<open>buscar_facebook_links_en_html\<close> has no duplicates, and each URL
  in it is \<open>urljoin(base_url, href)\<close> of an anchor of the page, starts with
  \<open>http(s)://(www.)facebook.com/\<close>, continues with none of the denylisted words nor the
  badge pattern, and has a path that, trimmed of slashes, is neither empty nor one of
  \<open>facebook\<close>, \<open>pg\<close>, \<open>profile.php\<close>.
\<close>

theorem facebook_links_filtered:
  assumes "iterates_sets L"
  shows "distinct (buscar_facebook_links_en_html L html base_url)
    \<and> (\<forall>u \<in> set (buscar_facebook_links_en_html L html base_url).
         (\<exists>href \<in> set (soup_hrefs L html). u = urljoin L base_url href)
         \<and> (\<exists>pre rest. u = pre @ rest \<and> pre \<in> set FB_PREFIXES
               \<and> (\<forall>w \<in> set FB_DENY_WORDS. \<not> startswith w rest) \<and> rx_match FB_BADGE rest = None)
         \<and> strip_slashes (urlparse_path L u) \<notin> set [[], ''facebook'', ''pg'', ''profile.php''])"
proof -
  let ?links = "fold (\<lambda>href links_encontrados.
                let url_absoluta = urljoin L base_url href
                in if fb_keep L url_absoluta then set_add url_absoluta links_encontrados
                   else links_encontrados)
             (soup_hrefs L html) []"
  have f: "distinct ?links \<and> set ?links = set [] \<union> {urljoin L base_url h | h. h \<in> set (soup_hrefs L html) \<and> fb_keep L (urljoin L base_url h)}"
    by (rule fold_set_add) simp
  have out: "buscar_facebook_links_en_html L html base_url = set_iter L ?links"
    by (simp add: buscar_facebook_links_en_html_def)
  from assms f have d: "distinct (set_iter L ?links)" and s: "set (set_iter L ?links) = set ?links"
    by (simp_all add: iterates_sets_def)
  have "\<forall>u \<in> set ?links.
         (\<exists>href \<in> set (soup_hrefs L html). u = urljoin L base_url href)
         \<and> (\<exists>pre rest. u = pre @ rest \<and> pre \<in> set FB_PREFIXES
               \<and> (\<forall>w \<in> set FB_DENY_WORDS. \<not> startswith w rest) \<and> rx_match FB_BADGE rest = None)
         \<and> strip_slashes (urlparse_path L u) \<notin> set [[], ''facebook'', ''pg'', ''profile.php'']"
  proof
    fix u assume "u \<in> set ?links"
    with f obtain h where h: "h \<in> set (soup_hrefs L html)" "u = urljoin L base_url h" "fb_keep L u"
      by auto
    from h(3) have m: "ms FACEBOOK_PROFILE_REGEX u \<noteq> []"
      and p: "strip_slashes (urlparse_path L u) \<notin> set [[], ''facebook'', ''pg'', ''profile.php'']"
      by (auto simp: fb_keep_def rx_match_def Let_def split: option.splits list.splits)
    from fb_match_shape[OF m] obtain pre rest where
      pr: "u = pre @ rest" "pre \<in> set FB_PREFIXES" "ms FB_DENY rest = []" by blast
    from fb_deny_words[OF pr(3)] pr(1,2)
    have "\<exists>pre rest. u = pre @ rest \<and> pre \<in> set FB_PREFIXES
               \<and> (\<forall>w \<in> set FB_DENY_WORDS. \<not> startswith w rest) \<and> rx_match FB_BADGE rest = None"
      by blast
    with h(1,2) p show "(\<exists>href \<in> set (soup_hrefs L html). u = urljoin L base_url href)
         \<and> (\<exists>pre rest. u = pre @ rest \<and> pre \<in> set FB_PREFIXES
               \<and> (\<forall>w \<in> set FB_DENY_WORDS. \<not> startswith w rest) \<and> rx_match FB_BADGE rest = None)
         \<and> strip_slashes (urlparse_path L u) \<notin> set [[], ''facebook'', ''pg'', ''profile.php'']"
      by blast
  qed
  with d s show ?thesis unfolding out by simp
qed

lemma fb_sample_run:
  "buscar_facebook_links_en_html (sample_lib rev)
      ''<a href=\"https://www.facebook.com/sharer/sharer.php\">s</a><a href=\"https://www.facebook.com/acme\">f</a><a href=\"https://www.facebook.com/acme\">g</a>''
      ''https://acme.example''
    = [''https://www.facebook.com/acme'']"
  by code_simp

text \<open>Claim C8 at a page with a sharer link and the same profile link twice.\<close>

theorem facebook_links_filtered_witness:
  "iterates_sets (sample_lib rev)
   \<and> buscar_facebook_links_en_html (sample_lib rev)
      ''<a href=\"https://www.facebook.com/sharer/sharer.php\">s</a><a href=\"https://www.facebook.com/acme\">f</a><a href=\"https://www.facebook.com/acme\">g</a>''
      ''https://acme.example''
    = [''https://www.facebook.com/acme'']
   \<and> strip_slashes (urlparse_path (sample_lib rev) ''https://www.facebook.com/acme'')
       \<notin> set [[], ''facebook'', ''pg'', ''profile.php'']"
  using facebook_links_filtered[OF iterates_sets_sample_rev,
      of "''<a href=\"https://www.facebook.com/sharer/sharer.php\">s</a><a href=\"https://www.facebook.com/acme\">f</a><a href=\"https://www.facebook.com/acme\">g</a>''"
         "''https://acme.example''"]
    iterates_sets_sample_rev
  by (simp add: fb_sample_run)

lemma visit_urls_stop: "truthy (email_final st) \<Longrightarrow> visit_urls L W us st = st"
  by (cases us) simp_all

lemma visit_urls_trace:
  "\<not> truthy (email_final st) \<Longrightarrow>
     visited (visit_urls L W us st)
       = visited st @ takeWhile (\<lambda>u. \<not> truthy (page_email W u)) us
           @ take 1 (dropWhile (\<lambda>u. \<not> truthy (page_email W u)) us)
     \<and> email_final (visit_urls L W us st)
       = (case find (\<lambda>u. truthy (page_email W u)) us of
            None \<Rightarrow> email_final st | Some u \<Rightarrow> page_email W u)"
proof (induction us arbitrary: st)
  case Nil
  then show ?case by simp
next
  case (Cons u us)
  let ?st1 = "st\<lparr>visited := visited st @ [u]\<rparr>"
  have n1: "\<not> truthy (email_final ?st1)" using Cons.prems by simp
  show ?case
  proof (cases "driver_get W u")
    case None
    then have pe: "page_email W u = None" by (simp add: page_email_def)
    have "visit_urls L W (u # us) st = visit_urls L W us ?st1"
      using Cons.prems None by simp
    with Cons.IH[OF n1] pe show ?thesis by (simp add: truthy_def cong: option.case_cong)
  next
    case (Some src)
    then have pe: "page_email W u = extraer_primer_email_valido_de_texto src"
      by (simp add: page_email_def)
    show ?thesis
    proof (cases "truthy (extraer_primer_email_valido_de_texto src)")
      case True
      let ?st2 = "?st1\<lparr>email_final := extraer_primer_email_valido_de_texto src\<rparr>"
      have "visit_urls L W (u # us) st = visit_urls L W us ?st2"
        using Cons.prems Some True by (simp add: Let_def)
      also have "\<dots> = ?st2" by (rule visit_urls_stop) (simp add: True)
      finally show ?thesis using True pe by simp
    next
      case False
      let ?fb = "buscar_facebook_links_en_html L src u"
      let ?st3 = "if ?fb \<noteq> [] then ?st1\<lparr>facebook_links_final := set_update ?fb (facebook_links_final ?st1)\<rparr> else ?st1"
      have run: "visit_urls L W (u # us) st = visit_urls L W us ?st3"
        using Cons.prems Some False by (simp add: Let_def)
      have n3: "\<not> truthy (email_final ?st3)" using Cons.prems by simp
      have v3: "visited ?st3 = visited st @ [u]" "email_final ?st3 = email_final st" by simp_all
      from Cons.IH[OF n3] show ?thesis unfolding run v3 using False pe by (simp cong: option.case_cong)
    qed
  qed
qed

lemma urls_a_visitar_set:
  assumes "urls_a_visitar L base_url = Inr urls"
  shows "distinct urls
   \<and> set urls = urljoin L (with_scheme L base_url) ` set COMMON_CONTACT_PATHS"
proof -
  let ?f = "fold (\<lambda>h a. let x = urljoin L (with_scheme L base_url) h in if True then set_add x a else a)
            COMMON_CONTACT_PATHS []"
  have f: "distinct ?f
   \<and> set ?f = set [] \<union> {urljoin L (with_scheme L base_url) h | h. h \<in> set COMMON_CONTACT_PATHS \<and> True}"
    by (rule fold_set_add) simp
  from assms have "urls = ?f"
    by (simp add: urls_a_visitar_def Let_def split: if_splits)
  with f show ?thesis by auto
qed

text \<open>
  Claim C3, as the code has it. The candidate URLs are collected in a \<open>set\<close> and visited
  in the order in which that set is iterated: each candidate at most once, every visited
  URL a joined candidate, up to and including the first one, in that order, whose
  rendered page yields an email, which is the email returned. The order is that of the
  set, not that of \<open>COMMON_CONTACT_PATHS\<close>. When \<open>urlparse\<close> or \<open>urljoin\<close> rejects the
  base URL, the function raises before any page is visited.
\<close>

theorem deep_visits_in_set_order:
  assumes "iterates_sets L"
  shows "(case urls_a_visitar L base_url of
            Inl e \<Rightarrow>
              deep_search L W base_url = Inl e
              \<and> buscar_datos_contacto_con_selenium L W base_url = Inl e
          | Inr urls \<Rightarrow>
              distinct (set_iter L urls)
              \<and> set (set_iter L urls) = urljoin L (with_scheme L base_url) ` set COMMON_CONTACT_PATHS
              \<and> (\<exists>st. deep_search L W base_url = Inr st
                    \<and> buscar_datos_contacto_con_selenium L W base_url
                        = Inr (email_final st, set_iter L (facebook_links_final st))
                    \<and> visited st
                        = takeWhile (\<lambda>u. \<not> truthy (page_email W u)) (set_iter L urls)
                          @ take 1 (dropWhile (\<lambda>u. \<not> truthy (page_email W u)) (set_iter L urls))
                    \<and> email_final st
                        = (case find (\<lambda>u. truthy (page_email W u)) (set_iter L urls) of
                             None \<Rightarrow> None | Some u \<Rightarrow> page_email W u)))"
proof (cases "urls_a_visitar L base_url")
  case (Inl e)
  then show ?thesis
    by (simp add: deep_search_def buscar_datos_contacto_con_selenium_def)
next
  case (Inr urls)
  let ?ini = "\<lparr>email_final = None, facebook_links_final = [], visited = []\<rparr>"
  let ?fin = "visit_urls L W (set_iter L urls) ?ini"
  have n0: "\<not> truthy (email_final ?ini)" by (simp add: truthy_def)
  from urls_a_visitar_set[OF Inr] assms
  have a: "distinct (set_iter L urls)"
    "set (set_iter L urls) = urljoin L (with_scheme L base_url) ` set COMMON_CONTACT_PATHS"
    by (simp_all add: iterates_sets_def)
  have d: "deep_search L W base_url = Inr ?fin"
    "buscar_datos_contacto_con_selenium L W base_url
       = Inr (email_final ?fin, set_iter L (facebook_links_final ?fin))"
    using Inr by (simp_all add: deep_search_def buscar_datos_contacto_con_selenium_def)
  from visit_urls_trace[OF n0, of L W "set_iter L urls"]
  have t: "visited ?fin
         = takeWhile (\<lambda>u. \<not> truthy (page_email W u)) (set_iter L urls)
           @ take 1 (dropWhile (\<lambda>u. \<not> truthy (page_email W u)) (set_iter L urls))"
    "email_final ?fin
         = (case find (\<lambda>u. truthy (page_email W u)) (set_iter L urls) of
              None \<Rightarrow> None | Some u \<Rightarrow> page_email W u)"
    by (simp_all cong: option.case_cong)
  from d t have "\<exists>st. deep_search L W base_url = Inr st
                    \<and> buscar_datos_contacto_con_selenium L W base_url
                        = Inr (email_final st, set_iter L (facebook_links_final st))
                    \<and> visited st
                        = takeWhile (\<lambda>u. \<not> truthy (page_email W u)) (set_iter L urls)
                          @ take 1 (dropWhile (\<lambda>u. \<not> truthy (page_email W u)) (set_iter L urls))
                    \<and> email_final st
                        = (case find (\<lambda>u. truthy (page_email W u)) (set_iter L urls) of
                             None \<Rightarrow> None | Some u \<Rightarrow> page_email W u)"
    by blast
  with a Inr show ?thesis by simp
qed

lemma deep_sample_urls:
  "urls_a_visitar (sample_lib rev) ''http://a.example''
    = Inr [''http://a.example'', ''http://a.example/contact'', ''http://a.example/contacto'',
       ''http://a.example/contact-us'', ''http://a.example/contactus'', ''http://a.example/about'',
       ''http://a.example/about-us'', ''http://a.example/nosotros'', ''http://a.example/impressum'',
       ''http://a.example/legal'', ''http://a.example/aviso-legal'', ''http://a.example/contactenos'']"
  by code_simp

lemma deep_sample_visited:
  "deep_visited (sample_lib rev) (one_page ''http://a.example/about'' ''write to Info@A.example'') ''http://a.example''
    = Inr [''http://a.example/contactenos'', ''http://a.example/aviso-legal'', ''http://a.example/legal'',
       ''http://a.example/impressum'', ''http://a.example/nosotros'', ''http://a.example/about-us'',
       ''http://a.example/about'']"
  by code_simp

lemma deep_sample_email:
  "map_sum id fst (buscar_datos_contacto_con_selenium (sample_lib rev) (one_page ''http://a.example/about'' ''write to Info@A.example'') ''http://a.example'')
    = Inr (Some ''info@a.example'')"
  by code_simp

text \<open>Claim C3 as amended, at a site whose \<open>about\<close> page holds an address and a set iterated backwards.\<close>

theorem deep_visits_in_set_order_witness:
  "iterates_sets (sample_lib rev)
   \<and> deep_visited (sample_lib rev) (one_page ''http://a.example/about'' ''write to Info@A.example'') ''http://a.example''
    = Inr [''http://a.example/contactenos'', ''http://a.example/aviso-legal'', ''http://a.example/legal'',
       ''http://a.example/impressum'', ''http://a.example/nosotros'', ''http://a.example/about-us'',
       ''http://a.example/about'']
   \<and> map_sum id fst (buscar_datos_contacto_con_selenium (sample_lib rev) (one_page ''http://a.example/about'' ''write to Info@A.example'') ''http://a.example'')
    = Inr (Some ''info@a.example'')
   \<and> distinct (set_iter (sample_lib rev)
        [''http://a.example'', ''http://a.example/contact'', ''http://a.example/contacto'',
         ''http://a.example/contact-us'', ''http://a.example/contactus'', ''http://a.example/about'',
         ''http://a.example/about-us'', ''http://a.example/nosotros'', ''http://a.example/impressum'',
         ''http://a.example/legal'', ''http://a.example/aviso-legal'', ''http://a.example/contactenos''])"
  using deep_visits_in_set_order[OF iterates_sets_sample_rev,
      where base_url = "''http://a.example''"
        and W = "one_page ''http://a.example/about'' ''write to Info@A.example''"]
    iterates_sets_sample_rev
  by (simp add: deep_sample_urls deep_sample_visited deep_sample_email)

text \<open>
  Claim C3 as stated fails. On a site where no page yields an email, a run whose set
  iterates backwards visits \<open>contactenos\<close> first and the home page last, and a run whose
  set iterates in insertion order visits them in the order of the list: the order of
  the visits is neither the configured one nor the same from run to run.
\<close>

theorem deep_visits_not_in_list_order:
  "deep_visited (sample_lib rev) offline ''http://a.example''
    = Inr [''http://a.example/contactenos'', ''http://a.example/aviso-legal'', ''http://a.example/legal'',
       ''http://a.example/impressum'', ''http://a.example/nosotros'', ''http://a.example/about-us'',
       ''http://a.example/about'', ''http://a.example/contactus'', ''http://a.example/contact-us'',
       ''http://a.example/contacto'', ''http://a.example/contact'', ''http://a.example'']
   \<and> deep_visited (sample_lib (\<lambda>xs. xs)) offline ''http://a.example''
    = Inr [''http://a.example'', ''http://a.example/contact'', ''http://a.example/contacto'',
       ''http://a.example/contact-us'', ''http://a.example/contactus'', ''http://a.example/about'',
       ''http://a.example/about-us'', ''http://a.example/nosotros'', ''http://a.example/impressum'',
       ''http://a.example/legal'', ''http://a.example/aviso-legal'', ''http://a.example/contactenos'']
   \<and> map (urljoin (sample_lib rev) ''http://a.example'') COMMON_CONTACT_PATHS
    = [''http://a.example'', ''http://a.example/contact'', ''http://a.example/contacto'',
       ''http://a.example/contact-us'', ''http://a.example/contactus'', ''http://a.example/about'',
       ''http://a.example/about-us'', ''http://a.example/nosotros'', ''http://a.example/impressum'',
       ''http://a.example/legal'', ''http://a.example/aviso-legal'', ''http://a.example/contactenos'']
   \<and> iterates_sets (sample_lib rev) \<and> iterates_sets (sample_lib (\<lambda>xs. xs))"
proof -
  have a: "deep_visited (sample_lib rev) offline ''http://a.example''
    = Inr [''http://a.example/contactenos'', ''http://a.example/aviso-legal'', ''http://a.example/legal'',
       ''http://a.example/impressum'', ''http://a.example/nosotros'', ''http://a.example/about-us'',
       ''http://a.example/about'', ''http://a.example/contactus'', ''http://a.example/contact-us'',
       ''http://a.example/contacto'', ''http://a.example/contact'', ''http://a.example'']"
    by code_simp
  have b: "deep_visited (sample_lib (\<lambda>xs. xs)) offline ''http://a.example''
    = Inr [''http://a.example'', ''http://a.example/contact'', ''http://a.example/contacto'',
       ''http://a.example/contact-us'', ''http://a.example/contactus'', ''http://a.example/about'',
       ''http://a.example/about-us'', ''http://a.example/nosotros'', ''http://a.example/impressum'',
       ''http://a.example/legal'', ''http://a.example/aviso-legal'', ''http://a.example/contactenos'']"
    by code_simp
  have c: "map (urljoin (sample_lib rev) ''http://a.example'') COMMON_CONTACT_PATHS
    = [''http://a.example'', ''http://a.example/contact'', ''http://a.example/contacto'',
       ''http://a.example/contact-us'', ''http://a.example/contactus'', ''http://a.example/about'',
       ''http://a.example/about-us'', ''http://a.example/nosotros'', ''http://a.example/impressum'',
       ''http://a.example/legal'', ''http://a.example/aviso-legal'', ''http://a.example/contactenos'']"
    by code_simp
  from a b c iterates_sets_sample_rev iterates_sets_sample_id show ?thesis by (simp only: simp_thms)
qed













lemma resolve_sample_rejected:
  "resolve (sample_lib rev) offline True (Some (JStr ''http://[''))
     = Inl ValueError"
  by code_simp








text \<open>
  Runs that end with status 1: an input that decodes to \<open>null\<close> (\<open>len\<close> raises), one that
  decodes to an object (its keys are strings, which have no \<open>get\<close>), one that cannot be
  decoded as UTF-8, and, with a Selenium driver, a record whose website \<open>urlparse\<close>
  rejects.
\<close>

lemma main_uncaught_exits_one:
  "exit_status (main (sample_lib rev) offline (sample_host False (Loaded JNull)) ''in.json'' ''out.json'') = 1
   \<and> exit_status (main (sample_lib rev) offline
        (sample_host False (Loaded (JObj [(''nombre'', JStr ''Acme'')]))) ''in.json'' ''out.json'') = 1
   \<and> exit_status (main (sample_lib rev) offline
        (sample_host False (LoadFails OtherLoadError)) ''in.json'' ''out.json'') = 1
   \<and> exit_status (main (sample_lib rev) offline
        (sample_host True (Loaded (JArr [JObj [(''website'', JStr ''http://['')]]))) ''in.json'' ''out.json'') = 1"
  by (simp add: main_def procesar_negocios_def sample_host_def result_entry_def
      resolve_sample_rejected)

end
